theory Spec2Isabelle
  imports Main "HOL-Library.Word" "HOL-Library.Sublist" "HOL-Library.List_Lexorder"
begin

section \<open>JavaScript strings\<close>

text \<open>
  A JavaScript string is a sequence of UTF-16 code units. Every string operation of
  \<^verbatim>\<open>scan.js\<close> (\<^verbatim>\<open>split\<close>, \<^verbatim>\<open>trim\<close>, \<^verbatim>\<open>indexOf\<close>, \<^verbatim>\<open>slice\<close>,
  \<^verbatim>\<open>startsWith\<close>, \<^verbatim>\<open>includes\<close>, \<^verbatim>\<open>replaceAll\<close>, the regular expressions without
  the \<^verbatim>\<open>u\<close> flag, the default \<^verbatim>\<open>sort\<close>) works on code units, so a string is modelled as
  a list of 16-bit words. \<open>asc\<close> embeds an ASCII literal of the source.
\<close>

type_synonym jschar = "16 word"
type_synonym jsstring = "jschar list"

definition asc :: "string \<Rightarrow> jsstring" where
  "asc s = map of_char s"

text \<open>\<^verbatim>\<open>s.startsWith(p)\<close> and \<^verbatim>\<open>s.includes(p)\<close>.\<close>

definition startsWith :: "jsstring \<Rightarrow> jsstring \<Rightarrow> bool" where
  "startsWith s p = prefix p s"

fun includesStr :: "jsstring \<Rightarrow> jsstring \<Rightarrow> bool" where
  "includesStr [] p = (p = [])"
| "includesStr (c # cs) p = (prefix p (c # cs) \<or> includesStr cs p)"

text \<open>
  \<^verbatim>\<open>s.indexOf(c)\<close> for a search string of one code unit: the first index holding it;
  \<open>None\<close> is the source's \<^verbatim>\<open>-1\<close>.
\<close>

fun indexOf :: "jsstring \<Rightarrow> jschar \<Rightarrow> nat option" where
  "indexOf [] c = None"
| "indexOf (x # xs) c = (if x = c then Some 0 else map_option Suc (indexOf xs c))"

text \<open>
  \<^verbatim>\<open>s.split(c)\<close> for a separator of one code unit. The empty string splits into one
  empty piece.
\<close>

fun splitStr :: "jsstring \<Rightarrow> jschar \<Rightarrow> jsstring list" where
  "splitStr [] c = [[]]"
| "splitStr (x # xs) c =
     (if x = c then [] # splitStr xs c
      else (case splitStr xs c of [] \<Rightarrow> [[x]] | l # ls \<Rightarrow> (x # l) # ls))"

text \<open>\<^verbatim>\<open>xs.join(sep)\<close>.\<close>

fun join :: "jsstring list \<Rightarrow> jsstring \<Rightarrow> jsstring" where
  "join [] sep = []"
| "join [x] sep = x"
| "join (x # y # ys) sep = x @ sep @ join (y # ys) sep"

text \<open>
  \<^verbatim>\<open>s.trim()\<close> strips the ECMAScript WhiteSpace and LineTerminator code units from
  both ends: TAB, LF, VT, FF, CR, SPACE, NBSP, U+1680, U+2000..U+200A, U+2028, U+2029,
  U+202F, U+205F, U+3000 and U+FEFF.
\<close>

definition isWhiteSpace :: "jschar \<Rightarrow> bool" where
  "isWhiteSpace c \<longleftrightarrow>
     c \<in> {0x09, 0x0A, 0x0B, 0x0C, 0x0D, 0x20, 0xA0, 0x1680, 0x2028, 0x2029, 0x202F,
          0x205F, 0x3000, 0xFEFF} \<or> (0x2000 \<le> c \<and> c \<le> 0x200A)"

definition trim :: "jsstring \<Rightarrow> jsstring" where
  "trim s = rev (dropWhile isWhiteSpace (rev (dropWhile isWhiteSpace s)))"

text \<open>
  \<^verbatim>\<open>s.replaceAll(c, r)\<close> for a search string of one code unit and a replacement with no
  \<^verbatim>\<open>$\<close> pattern, which is how every call of the source uses it.
\<close>

definition replaceAll :: "jsstring \<Rightarrow> jschar \<Rightarrow> jsstring \<Rightarrow> jsstring" where
  "replaceAll s c r = concat (map (\<lambda>x. if x = c then r else [x]) s)"

text \<open>
  A \<^verbatim>\<open>Set\<close> of strings keeps insertion order: a list without duplicates, \<^verbatim>\<open>add\<close>
  appending an element that is new.
\<close>

definition set_add :: "jsstring \<Rightarrow> jsstring list \<Rightarrow> jsstring list" where
  "set_add k ks = (if k \<in> set ks then ks else ks @ [k])"

definition newline :: jschar where
  "newline = 0x0A"

section \<open>The env-list parser\<close>

text \<open>
  \<^verbatim>\<open>parseEnvKeys\<close> (scan.js, lines 16 to 27). \<open>parseEnvLine\<close> is the body of its loop:
  one raw line and the set built so far.
\<close>

definition parseEnvLine :: "jsstring list \<Rightarrow> jsstring \<Rightarrow> jsstring list" where
  "parseEnvLine keys raw =
     (let line = trim raw in
      if line = [] \<or> startsWith line (asc ''#'') then keys
      else (case indexOf line 0x3D of
              None \<Rightarrow> keys
            | Some eq \<Rightarrow>
                (let key = trim (take eq line) in
                 if key \<noteq> [] then set_add key keys else keys)))"

definition parseEnvKeys :: "jsstring \<Rightarrow> jsstring list" where
  "parseEnvKeys envText = foldl parseEnvLine [] (splitStr envText newline)"

text \<open>
  The parser as the specification words it: for each line, trim; skip if empty or
  starting with \<^verbatim>\<open>#\<close>; skip if it has no \<^verbatim>\<open>=\<close>; otherwise the trimmed substring
  before the first \<^verbatim>\<open>=\<close> is a declared key.
\<close>

definition declaredKey_spec :: "jsstring \<Rightarrow> jsstring option" where
  "declaredKey_spec raw =
     (let line = trim raw in
      if line = [] \<or> startsWith line (asc ''#'') then None
      else if 0x3D \<notin> set line then None
      else Some (trim (takeWhile (\<lambda>c. c \<noteq> 0x3D) line)))"

definition parseEnvKeys_spec :: "jsstring \<Rightarrow> jsstring set" where
  "parseEnvKeys_spec envText = set (List.map_filter declaredKey_spec (splitStr envText newline))"

text \<open>
  The same with the source's last test: a line whose key is empty after trimming
  declares nothing.
\<close>

definition declaredKey :: "jsstring \<Rightarrow> jsstring option" where
  "declaredKey raw =
     (case declaredKey_spec raw of
        None \<Rightarrow> None
      | Some key \<Rightarrow> if key = [] then None else Some key)"

section \<open>The usage extractor\<close>

text \<open>
  \<^verbatim>\<open>getLineNumber\<close> (scan.js, lines 12 to 14):
  \<^verbatim>\<open>text.slice(0, index).split("\n").length\<close>.
\<close>

definition getLineNumber :: "jsstring \<Rightarrow> nat \<Rightarrow> nat" where
  "getLineNumber text index = length (splitStr (take index text) newline)"

text \<open>The character class \<^verbatim>\<open>[A-Z0-9_]\<close> of both patterns.\<close>

definition isKeyChar :: "jschar \<Rightarrow> bool" where
  "isKeyChar c \<longleftrightarrow> (0x41 \<le> c \<and> c \<le> 0x5A) \<or> (0x30 \<le> c \<and> c \<le> 0x39) \<or> c = 0x5F"

definition isQuote :: "jschar \<Rightarrow> bool" where
  "isQuote c \<longleftrightarrow> c = 0x27 \<or> c = 0x22"

text \<open>
  An attempt to match a pattern at the start of a string gives the captured group and
  the length of the whole match. \<open>reDot\<close> is \<^verbatim>\<open>/process\.env\.([A-Z0-9_]+)/\<close>: the
  literal, then the longest non-empty run of the class (the quantifier is greedy and
  nothing follows it).
\<close>

definition reDot :: "jsstring \<Rightarrow> (jsstring \<times> nat) option" where
  "reDot s =
     (if prefix (asc ''process.env.'') s then
        (let key = takeWhile isKeyChar (drop 12 s) in
         if key = [] then None else Some (key, 12 + length key))
      else None)"

text \<open>
  \<open>reBracket\<close> is \<^verbatim>\<open>/process\.env\[['"]([A-Z0-9_]+)['"]\]/\<close>: the literal, one quote
  of either kind, a non-empty run of the class, one quote of either kind (not
  necessarily the opening one) and the closing bracket. A quote is not in the class,
  so only the longest run can be followed by one: backtracking to a shorter run never
  succeeds.
\<close>

definition reBracket :: "jsstring \<Rightarrow> (jsstring \<times> nat) option" where
  "reBracket s =
     (if prefix (asc ''process.env['') s then
        (case drop 12 s of
           [] \<Rightarrow> None
         | q # rest \<Rightarrow>
             if isQuote q then
               (let key = takeWhile isKeyChar rest in
                if key = [] then None
                else (case dropWhile isKeyChar rest of
                        q' # b # _ \<Rightarrow>
                          if isQuote q' \<and> b = 0x5D then Some (key, 15 + length key) else None
                      | _ \<Rightarrow> None))
             else None)
      else None)"

text \<open>
  \<^verbatim>\<open>text.matchAll(re)\<close> for a global pattern \<open>re\<close>: the matches from left to right,
  each as the index where it starts and its captured group. After a match the search
  goes on where the match ended (one code unit further after an empty match); where
  nothing matches it moves one code unit on.
\<close>

function matchAll ::
  "(jsstring \<Rightarrow> (jsstring \<times> nat) option) \<Rightarrow> nat \<Rightarrow> jsstring \<Rightarrow> (nat \<times> jsstring) list" where
  "matchAll re idx s =
     (case re s of
        Some (key, n) \<Rightarrow>
          (idx, key) # (if s = [] then [] else matchAll re (idx + max n 1) (drop (max n 1) s))
      | None \<Rightarrow> (case s of [] \<Rightarrow> [] | _ # cs \<Rightarrow> matchAll re (idx + 1) cs))"
  by pat_completeness auto
termination
  by (relation "measure (\<lambda>(re, idx, s). length s)") auto

text \<open>
  An Occurrence as the source builds it (lines 174 and 182; \<open>occ_file\<close> and
  \<open>occ_line\<close> are its \<^verbatim>\<open>file\<close> and \<^verbatim>\<open>line\<close>), and the usage index: a
  \<^verbatim>\<open>Map\<close> from variable name to its occurrences, an association list in insertion
  order with one entry per key.
\<close>

record occurrence =
  occ_file :: jsstring
  occ_line :: nat
  isClient :: bool
  isServerFile :: bool

type_synonym usageIndex = "(jsstring \<times> occurrence list) list"

text \<open>\<^verbatim>\<open>used.has(key)\<close>.\<close>

definition has :: "usageIndex \<Rightarrow> jsstring \<Rightarrow> bool" where
  "has used key \<longleftrightarrow> key \<in> fst ` set used"

text \<open>
  The body of both match loops (lines 170 to 174 and 178 to 182):
  \<^verbatim>\<open>if (!used.has(key)) used.set(key, []); used.get(key).push({...})\<close>.
\<close>

definition recordMatch ::
  "jsstring \<Rightarrow> jsstring \<Rightarrow> bool \<Rightarrow> bool \<Rightarrow> usageIndex \<Rightarrow> nat \<times> jsstring \<Rightarrow> usageIndex" where
  "recordMatch relFile text isC isS used m =
     (case m of (idx, key) \<Rightarrow>
        (let ln = getLineNumber text idx;
             used1 = (if \<not> has used key then used @ [(key, [])] else used)
         in map (\<lambda>(k, locs).
                  if k = key
                  then (k, locs @ [\<lparr>occ_file = relFile, occ_line = ln, isClient = isC, isServerFile = isS\<rparr>])
                  else (k, locs)) used1))"

text \<open>The two flags of a file (lines 156 to 163).\<close>

definition isClientText :: "jsstring \<Rightarrow> bool" where
  \<open>isClientText text \<longleftrightarrow>
     includesStr text (asc ''"use client"'') \<or> includesStr text (0x27 # asc ''use client'' @ [0x27])\<close>

definition isServerPath :: "jsstring \<Rightarrow> bool" where
  "isServerPath relFile \<longleftrightarrow>
     startsWith relFile (asc ''app/api/'') \<or>
     startsWith relFile (asc ''src/app/api/'') \<or>
     includesStr relFile (asc ''/route.ts'') \<or>
     includesStr relFile (asc ''/route.js'')"

text \<open>
  One iteration of the loop over the files, for a file that was read (lines 156 to
  183): every match of the dot pattern, then every match of the bracket pattern.
\<close>

definition scanFile :: "usageIndex \<Rightarrow> jsstring \<Rightarrow> jsstring \<Rightarrow> usageIndex" where
  "scanFile used relFile text =
     (let isC = isClientText text;
          isS = isServerPath relFile;
          used1 = foldl (recordMatch relFile text isC isS) used (matchAll reDot 0 text)
      in foldl (recordMatch relFile text isC isS) used1 (matchAll reBracket 0 text))"

text \<open>
  The loop over the enumerated files (lines 146 to 184). A file is its relative path
  and what \<^verbatim>\<open>readFileSync\<close> gave: \<open>None\<close> when it threw, and the loop continues.
\<close>

type_synonym sourceFile = "jsstring \<times> jsstring option"

definition scanStep :: "usageIndex \<Rightarrow> sourceFile \<Rightarrow> usageIndex" where
  "scanStep used f =
     (case f of (relFile, content) \<Rightarrow>
        (case content of None \<Rightarrow> used | Some text \<Rightarrow> scanFile used relFile text))"

definition scanFiles :: "sourceFile list \<Rightarrow> usageIndex" where
  "scanFiles files = foldl scanStep [] files"

declare matchAll.simps [simp del]

section \<open>Reconciliation\<close>

text \<open>\<^verbatim>\<open>new Set(xs)\<close>: the elements of \<open>xs\<close> in order, each once.\<close>

definition newSet :: "jsstring list \<Rightarrow> jsstring list" where
  "newSet xs = foldl (\<lambda>ks k. set_add k ks) [] xs"

text \<open>
  Lines 192 to 199: \<open>usedKeys\<close> is the key set of the usage index, and the two lists
  are filled only when the declared set is not empty.
\<close>

definition usedKeysOf :: "usageIndex \<Rightarrow> jsstring list" where
  "usedKeysOf used = newSet (map fst used)"

definition missingOf :: "jsstring list \<Rightarrow> jsstring list \<Rightarrow> jsstring list" where
  "missingOf usedKeys providedKeys =
     (if length providedKeys > 0 then filter (\<lambda>k. k \<notin> set providedKeys) usedKeys else [])"

definition unusedOf :: "jsstring list \<Rightarrow> jsstring list \<Rightarrow> jsstring list" where
  "unusedOf usedKeys providedKeys =
     (if length providedKeys > 0 then filter (\<lambda>k. k \<notin> set usedKeys) providedKeys else [])"

section \<open>The risk classifier\<close>

text \<open>
  \<^verbatim>\<open>looksSensitiveName\<close> (lines 29 to 31) tests
  \<^verbatim>\<open>/KEY|TOKEN|SECRET|PRIVATE|PASSWORD|PASS|AUTH/i\<close>. Without the \<^verbatim>\<open>u\<close> flag a code
  unit matches an ASCII letter of the pattern when it is that letter in either case:
  the upper-case mapping of a code unit from 128 on is not used when it would give an
  ASCII one. So the name is compared after mapping \<^verbatim>\<open>a-z\<close> to \<^verbatim>\<open>A-Z\<close>.
\<close>

definition upperASCII :: "jschar \<Rightarrow> jschar" where
  "upperASCII c = (if 0x61 \<le> c \<and> c \<le> 0x7A then c - 0x20 else c)"

definition looksSensitiveName :: "jsstring \<Rightarrow> bool" where
  "looksSensitiveName key =
     list_ex (includesStr (map upperASCII key))
       [asc ''KEY'', asc ''TOKEN'', asc ''SECRET'', asc ''PRIVATE'', asc ''PASSWORD'',
        asc ''PASS'', asc ''AUTH'']"

text \<open>\<^verbatim>\<open>isLikelyClientExposedPath\<close> (lines 33 to 50).\<close>

definition isLikelyClientExposedPath :: "jsstring \<Rightarrow> bool" where
  "isLikelyClientExposedPath relFile =
     (let f = replaceAll relFile 0x5C (asc ''/'');
          isAppOrPages =
            startsWith f (asc ''app/'') \<or>
            startsWith f (asc ''pages/'') \<or>
            startsWith f (asc ''src/app/'') \<or>
            startsWith f (asc ''src/pages/'');
          isApi =
            startsWith f (asc ''app/api/'') \<or>
            startsWith f (asc ''src/app/api/'') \<or>
            includesStr f (asc ''/route.ts'') \<or>
            includesStr f (asc ''/route.js'')
      in isAppOrPages \<and> \<not> isApi)"

text \<open>
  A finding as the source builds it: \<open>risk_type\<close>, \<open>risk_key\<close>, \<open>risk_file\<close>,
  \<open>risk_line\<close> and \<open>risk_why\<close> are its \<^verbatim>\<open>type\<close>, \<^verbatim>\<open>key\<close>, \<^verbatim>\<open>file\<close>, \<^verbatim>\<open>line\<close>
  and \<^verbatim>\<open>why\<close>. The four \<^verbatim>\<open>type\<close> strings name the four rules.
\<close>

record riskFinding =
  risk_type :: jsstring
  risk_key :: jsstring
  risk_file :: jsstring
  risk_line :: nat
  risk_why :: jsstring

definition typeSecretExposed :: jsstring where
  "typeSecretExposed =
     asc ''Secret-like env used in potentially client-exposed code (heuristic)''"

definition typePublicSensitive :: jsstring where
  "typePublicSensitive = asc ''Public env name looks sensitive''"

definition typeClientSecret :: jsstring where
  "typeClientSecret = asc ''Possible secret used in client component''"

definition typePublicServerOnly :: jsstring where
  "typePublicServerOnly = asc ''NEXT_PUBLIC_ used only in server code''"

definition whySecretExposed :: jsstring where
  "whySecretExposed =
     asc ''Name looks like a secret (KEY/TOKEN/SECRET/PASSWORD). Because it'' @ [0x2019] @
     asc ''s referenced in app/ or pages/, it may end up in browser code depending on how the component is used.''"

definition whyPublicSensitive :: jsstring where
  "whyPublicSensitive =
     asc ''NEXT_PUBLIC_* can be exposed to the browser; this looks like it might be a secret.''"

definition whyClientSecret :: jsstring where
  \<open>whyClientSecret =
     asc ''Referenced inside a file marked 'use client'. Secrets should not be used in client components.''\<close>

definition whyPublicServerOnly :: jsstring where
  \<open>whyPublicServerOnly =
     asc ''NEXT_PUBLIC_* is meant for browser-exposed vars. If it's only used in server routes, it may be misnamed or unintended.''\<close>

text \<open>
  What can stop a run once the target is prepared: reading the env file throws, or a
  property of \<^verbatim>\<open>undefined\<close> is read (\<^verbatim>\<open>locations[0].file\<close> on an empty array).
\<close>

datatype error = ReadError | TypeError

definition firstLocation :: "occurrence list \<Rightarrow> error + occurrence" where
  "firstLocation locations = (case locations of [] \<Rightarrow> Inl TypeError | ex # _ \<Rightarrow> Inr ex)"

definition finding :: "jsstring \<Rightarrow> jsstring \<Rightarrow> occurrence \<Rightarrow> jsstring \<Rightarrow> riskFinding" where
  "finding ty key ex why =
     \<lparr>risk_type = ty, risk_key = key, risk_file = occ_file ex, risk_line = occ_line ex,
      risk_why = why\<rparr>"

definition isPublicName :: "jsstring \<Rightarrow> bool" where
  "isPublicName key = startsWith key (asc ''NEXT_PUBLIC_'')"

text \<open>Lines 207 to 218: a sensitive name in a potentially client-exposed path.\<close>

definition riskSecretExposed ::
  "jsstring list \<Rightarrow> jsstring \<Rightarrow> occurrence list \<Rightarrow> error + riskFinding list" where
  "riskSecretExposed missingSet key locations =
     (if key \<notin> set missingSet \<and> looksSensitiveName key then
        (case List.find (\<lambda>x. isLikelyClientExposedPath (occ_file x)) locations of
           Some ex \<Rightarrow> Inr [finding typeSecretExposed key ex whySecretExposed]
         | None \<Rightarrow> Inr [])
      else Inr [])"

text \<open>Lines 221 to 234: a public name that looks sensitive.\<close>

definition riskPublicSensitive ::
  "jsstring list \<Rightarrow> jsstring \<Rightarrow> occurrence list \<Rightarrow> error + riskFinding list" where
  "riskPublicSensitive missingSet key locations =
     (if key \<notin> set missingSet \<and> isPublicName key \<and> looksSensitiveName key then
        (case firstLocation locations of
           Inl e \<Rightarrow> Inl e
         | Inr ex \<Rightarrow> Inr [finding typePublicSensitive key ex whyPublicSensitive])
      else Inr [])"

text \<open>Lines 237 to 251: a name without the public prefix in a client file.\<close>

definition riskClientSecret ::
  "jsstring list \<Rightarrow> jsstring \<Rightarrow> occurrence list \<Rightarrow> error + riskFinding list" where
  "riskClientSecret missingSet key locations =
     (let usedInClient = list_ex isClient locations in
      if key \<notin> set missingSet \<and> usedInClient \<and> \<not> isPublicName key then
        (case (case List.find isClient locations of
                 Some ex \<Rightarrow> Inr ex
               | None \<Rightarrow> firstLocation locations) of
           Inl e \<Rightarrow> Inl e
         | Inr ex \<Rightarrow> Inr [finding typeClientSecret key ex whyClientSecret])
      else Inr [])"

text \<open>Lines 254 to 268: a public name used only in server routes.\<close>

definition riskPublicServerOnly ::
  "jsstring list \<Rightarrow> jsstring \<Rightarrow> occurrence list \<Rightarrow> error + riskFinding list" where
  "riskPublicServerOnly missingSet key locations =
     (let usedOnlyInServer = list_all isServerFile locations in
      if key \<notin> set missingSet \<and> isPublicName key \<and> usedOnlyInServer then
        (case firstLocation locations of
           Inl e \<Rightarrow> Inl e
         | Inr ex \<Rightarrow> Inr [finding typePublicServerOnly key ex whyPublicServerOnly])
      else Inr [])"

text \<open>
  The pushes of several steps in order; the first step that throws ends them all.
\<close>

definition appendE :: "error + 'a list \<Rightarrow> error + 'a list \<Rightarrow> error + 'a list" where
  "appendE a b =
     (case a of
        Inl e \<Rightarrow> Inl e
      | Inr xs \<Rightarrow> (case b of Inl e \<Rightarrow> Inl e | Inr ys \<Rightarrow> Inr (xs @ ys)))"

text \<open>The body of the loop over \<^verbatim>\<open>used.entries()\<close> (lines 205 to 269), and the loop.\<close>

definition riskChecksFor ::
  "jsstring list \<Rightarrow> jsstring \<times> occurrence list \<Rightarrow> error + riskFinding list" where
  "riskChecksFor missingSet entry =
     (case entry of (key, locations) \<Rightarrow>
        appendE (riskSecretExposed missingSet key locations)
          (appendE (riskPublicSensitive missingSet key locations)
             (appendE (riskClientSecret missingSet key locations)
                (riskPublicServerOnly missingSet key locations))))"

fun riskChecks :: "jsstring list \<Rightarrow> usageIndex \<Rightarrow> error + riskFinding list" where
  "riskChecks missingSet [] = Inr []"
| "riskChecks missingSet (entry # rest) =
     appendE (riskChecksFor missingSet entry) (riskChecks missingSet rest)"

section \<open>The report\<close>

text \<open>
  \<^verbatim>\<open>String(n)\<close> for a count or a line number: its decimal digits.
\<close>

fun numToString :: "nat \<Rightarrow> jsstring" where
  "numToString n =
     (if n < 10 then [0x30 + of_nat n]
      else numToString (n div 10) @ [0x30 + of_nat (n mod 10)])"

declare numToString.simps [simp del]

text \<open>\<^verbatim>\<open>escapeHtml\<close> (lines 52 to 59), applied to a string.\<close>

definition escapeHtml :: "jsstring \<Rightarrow> jsstring" where
  \<open>escapeHtml s =
     replaceAll
       (replaceAll
          (replaceAll
             (replaceAll
                (replaceAll s 0x26 (asc ''&amp;''))
                0x3C (asc ''&lt;''))
             0x3E (asc ''&gt;''))
          0x22 (asc ''&quot;''))
       0x27 (asc ''&#039;'')\<close>

text \<open>
  The structured report (lines 271 to 285). \<^verbatim>\<open>locationsByEnvVar\<close> is the object
  made from the entries of the usage index, read as a finite map.
\<close>

record totals =
  filesScanned :: nat
  envVarsFound :: nat
  missingCount :: nat
  unusedCount :: nat
  riskyCount :: nat

record report =
  scannedInput :: jsstring
  totals :: totals
  envVarsUsed :: "jsstring list"
  missing :: "jsstring list"
  unused :: "jsstring list"
  risky :: "riskFinding list"
  locationsByEnvVar :: "jsstring \<rightharpoonup> occurrence list"

text \<open>
  The declarations template (lines 319 and 320): one \<^verbatim>\<open>KEY=\<close> line per used key,
  sorted, joined by line feeds, with one line feed after the last.
\<close>

definition exampleLines :: "jsstring list \<Rightarrow> jsstring" where
  "exampleLines usedKeys = join (map (\<lambda>k. k @ asc ''='') (sort usedKeys)) [newline]"

text \<open>
  The markup report (lines 324 to 373). \<open>orElse\<close> is \<^verbatim>\<open>s || d\<close> on strings: the
  empty string is the only one that gives \<open>d\<close>.
\<close>

definition orElse :: "jsstring \<Rightarrow> jsstring \<Rightarrow> jsstring" where
  "orElse s d = (if s = [] then d else s)"

definition whereOf :: "usageIndex \<Rightarrow> jsstring \<Rightarrow> jsstring" where
  "whereOf used k =
     (case (case map_of used k of None \<Rightarrow> [] | Some locations \<Rightarrow> locations) of
        [] \<Rightarrow> []
      | ex # _ \<Rightarrow> occ_file ex @ asc '':'' @ numToString (occ_line ex))"

definition missingItem :: "usageIndex \<Rightarrow> jsstring \<Rightarrow> jsstring" where
  \<open>missingItem used k =
     asc ''<li><b>'' @ escapeHtml k @ asc ''</b> <span style="color:#666">'' @
     escapeHtml (whereOf used k) @ asc ''</span></li>''\<close>

definition riskyItem :: "riskFinding \<Rightarrow> jsstring" where
  \<open>riskyItem r =
     asc ''<li><b>'' @ escapeHtml (risk_key r) @ asc ''</b> '' @ [0x2014] @ asc '' '' @
     escapeHtml (risk_type r) @ asc '' <span style="color:#666">('' @
     escapeHtml (risk_file r) @ asc '':'' @ escapeHtml (numToString (risk_line r)) @
     asc '')</span><div style="color:#666;margin-top:4px">'' @
     escapeHtml (orElse (risk_why r) []) @ asc ''</div></li>''\<close>

definition unusedItem :: "jsstring \<Rightarrow> jsstring" where
  \<open>unusedItem k = asc ''<li><b>'' @ escapeHtml k @ asc ''</b></li>''\<close>

definition noneItem :: jsstring where
  \<open>noneItem = asc ''<li>None '' @ [0xD83C, 0xDF89] @ asc ''</li>''\<close>

definition renderHtml :: "report \<Rightarrow> usageIndex \<Rightarrow> jsstring" where
  \<open>renderHtml report used =
     (let missingItems = concat (map (missingItem used) (missing report));
          riskyItems = concat (map riskyItem (risky report));
          unusedItems = concat (map unusedItem (unused report))
      in
     asc ''<!doctype html>\<newline>'' @
     asc ''<html><head><meta charset="utf-8" /><meta name="viewport" content="width=device-width, initial-scale=1" />\<newline>'' @
     asc ''<title>Env Audit Report</title></head>\<newline>'' @
     asc ''<body style="font-family: system-ui, -apple-system; margin: 24px; max-width: 900px;">\<newline>'' @
     asc ''<h1 style="margin:0 0 6px 0;">Env Audit Report</h1>\<newline>'' @
     asc ''<div style="color:#666;margin-bottom:16px;">Input: '' @
     escapeHtml (scannedInput report) @
     asc ''</div>\<newline>'' @
     asc ''\<newline>'' @
     asc ''<div style="display:flex; gap:12px; flex-wrap:wrap; margin-bottom:18px;">\<newline>'' @
     asc ''  <div style="padding:10px 12px;border:1px solid #ddd;border-radius:10px;">Files: <b>'' @
     numToString (filesScanned (totals report)) @
     asc ''</b></div>\<newline>'' @
     asc ''  <div style="padding:10px 12px;border:1px solid #ddd;border-radius:10px;">Env vars: <b>'' @
     numToString (envVarsFound (totals report)) @
     asc ''</b></div>\<newline>'' @
     asc ''  <div style="padding:10px 12px;border:1px solid #ddd;border-radius:10px;">Missing: <b>'' @
     numToString (missingCount (totals report)) @
     asc ''</b></div>\<newline>'' @
     asc ''  <div style="padding:10px 12px;border:1px solid #ddd;border-radius:10px;">Risky: <b>'' @
     numToString (riskyCount (totals report)) @
     asc ''</b></div>\<newline>'' @
     asc ''  <div style="padding:10px 12px;border:1px solid #ddd;border-radius:10px;">Unused: <b>'' @
     numToString (unusedCount (totals report)) @
     asc ''</b></div>\<newline>'' @
     asc ''</div>\<newline>'' @
     asc ''\<newline>'' @
     asc ''<h2>Critical: Missing env vars</h2>\<newline>'' @
     asc ''<ul>'' @
     orElse missingItems noneItem @
     asc ''</ul>\<newline>'' @
     asc ''\<newline>'' @
     asc ''<h2>Warnings: Risky usage</h2>\<newline>'' @
     asc ''<ul>'' @
     orElse riskyItems noneItem @
     asc ''</ul>\<newline>'' @
     asc ''\<newline>'' @
     asc ''<h2>Info: Unused env vars</h2>\<newline>'' @
     asc ''<ul>'' @
     orElse unusedItems noneItem @
     asc ''</ul>\<newline>'' @
     asc ''\<newline>'' @
     asc ''<hr style="margin:24px 0;border:none;border-top:1px solid #eee;" />\<newline>'' @
     asc ''<div style="color:#666;font-size:14px;">Generated by env-auditor</div>\<newline>'' @
     asc ''</body></html>'')\<close>

section \<open>A run\<close>

text \<open>
  The model starts where \<^verbatim>\<open>main\<close> has its target prepared and its files enumerated
  (line 144 on). A run is given the echoed target path, the enumerated files with
  what reading each gave, and the env-list argument: absent (or the empty string),
  naming a file that cannot be read, or naming a file with its text.
\<close>

datatype envArg = NoEnvFile | EnvUnreadable | EnvText jsstring

record input =
  displayTarget :: jsstring
  files :: "sourceFile list"
  envFile :: envArg

text \<open>What a run writes: \<^verbatim>\<open>report.json\<close>, \<^verbatim>\<open>.env.example.generated\<close> and
  \<^verbatim>\<open>report.html\<close>. The console lines are not modelled.\<close>

record outputs =
  reportJson :: report
  envExample :: jsstring
  reportHtml :: jsstring

text \<open>Lines 186 to 190.\<close>

definition readProvidedKeys :: "envArg \<Rightarrow> error + jsstring list" where
  "readProvidedKeys arg =
     (case arg of
        NoEnvFile \<Rightarrow> Inr []
      | EnvUnreadable \<Rightarrow> Inl ReadError
      | EnvText envText \<Rightarrow> Inr (parseEnvKeys envText))"

text \<open>
  Lines 144 to 375. \<^verbatim>\<open>missing.sort()\<close> and \<^verbatim>\<open>unused.sort()\<close> sort the arrays in
  place while the report is built, so the markup report lists them sorted;
  \<open>missingSet\<close> is made before. The default sort compares code units, which is the
  lexicographic order of lists of words.
\<close>

definition main :: "input \<Rightarrow> error + outputs" where
  "main inp =
     (let used = scanFiles (files inp) in
      case readProvidedKeys (envFile inp) of
        Inl e \<Rightarrow> Inl e
      | Inr providedKeys \<Rightarrow>
          (let usedKeys = usedKeysOf used;
               missing0 = missingOf usedKeys providedKeys;
               unused0 = unusedOf usedKeys providedKeys;
               missingSet = newSet missing0
           in case riskChecks missingSet used of
                Inl e \<Rightarrow> Inl e
              | Inr risky0 \<Rightarrow>
                  (let report =
                         \<lparr>scannedInput = displayTarget inp,
                          totals =
                            \<lparr>filesScanned = length (files inp),
                             envVarsFound = length usedKeys,
                             missingCount = length missing0,
                             unusedCount = length unused0,
                             riskyCount = length risky0\<rparr>,
                          envVarsUsed = sort usedKeys,
                          missing = sort missing0,
                          unused = sort unused0,
                          risky = risky0,
                          locationsByEnvVar = map_of used\<rparr>
                   in Inr \<lparr>reportJson = report,
                           envExample = exampleLines usedKeys @ [newline],
                           reportHtml = renderHtml report used\<rparr>)))"

section \<open>Notions used to state the properties\<close>

text \<open>
  The occurrences recorded for a key (none for a key that is absent), and the
  Occurrence the extractor builds for a match at index \<open>idx\<close> of a file.
\<close>

definition locsOf :: "usageIndex \<Rightarrow> jsstring \<Rightarrow> occurrence list" where
  "locsOf used key = (case map_of used key of None \<Rightarrow> [] | Some locations \<Rightarrow> locations)"

definition occurrenceAt :: "jsstring \<Rightarrow> jsstring \<Rightarrow> nat \<Rightarrow> occurrence" where
  "occurrenceAt relFile text idx =
     \<lparr>occ_file = relFile, occ_line = getLineNumber text idx,
      isClient = isClientText text, isServerFile = isServerPath relFile\<rparr>"

definition matchesOf :: "jsstring \<Rightarrow> (nat \<times> jsstring) list \<Rightarrow> nat list" where
  "matchesOf key ms = map fst (filter (\<lambda>m. snd m = key) ms)"

text \<open>A variable name as a pattern captures it: a non-empty run of \<^verbatim>\<open>[A-Z0-9_]\<close>.\<close>

definition isVariableName :: "jsstring \<Rightarrow> bool" where
  "isVariableName k \<longleftrightarrow> k \<noteq> [] \<and> list_all isKeyChar k"

text \<open>
  What the extractor keeps true of the usage index: one entry per key, every entry
  with at least one occurrence, every key a variable name.
\<close>

definition wellFormed :: "usageIndex \<Rightarrow> bool" where
  "wellFormed used \<longleftrightarrow>
     distinct (map fst used) \<and> list_all (\<lambda>(k, locs). locs \<noteq> [] \<and> isVariableName k) used"

section \<open>Notions used to state the properties of the markup report\<close>

text \<open>
  The five characters the specification asks to escape with their entities, and the
  escaping of one code unit.
\<close>

definition entities :: "jsstring list" where
  "entities = [asc ''&amp;'', asc ''&lt;'', asc ''&gt;'', asc ''&quot;'', asc ''&#039;'']"

definition escapeUnit :: "jschar \<Rightarrow> jsstring" where
  "escapeUnit c =
     (if c = 0x26 then asc ''&amp;''
      else if c = 0x3C then asc ''&lt;''
      else if c = 0x3E then asc ''&gt;''
      else if c = 0x22 then asc ''&quot;''
      else if c = 0x27 then asc ''&#039;''
      else [c])"

text \<open>The code units \<^verbatim>\<open><\<close>, \<^verbatim>\<open>>\<close>, \<^verbatim>\<open>"\<close> and \<^verbatim>\<open>'\<close>.\<close>

definition isMarkupUnit :: "jschar \<Rightarrow> bool" where
  "isMarkupUnit c \<longleftrightarrow> c = 0x3C \<or> c = 0x3E \<or> c = 0x22 \<or> c = 0x27"

text \<open>Every \<^verbatim>\<open>&\<close> of a string begins one of the five entities.\<close>

fun ampsBeginEntities :: "jsstring \<Rightarrow> bool" where
  "ampsBeginEntities [] = True"
| "ampsBeginEntities (c # cs) =
     ((c = 0x26 \<longrightarrow> list_ex (\<lambda>e. prefix e (c # cs)) entities) \<and> ampsBeginEntities cs)"

text \<open>
  The number of occurrences of a non-empty string in a string, overlapping ones
  included; the opening tag of a metric tile and of a section heading.
\<close>

fun countOcc :: "'a list \<Rightarrow> 'a list \<Rightarrow> nat" where
  "countOcc p [] = 0"
| "countOcc p (c # cs) = (if prefix p (c # cs) then 1 else 0) + countOcc p cs"

definition tileOpen :: string where
  \<open>tileOpen = ''<div style="padding:10px 12px;border:1px solid #ddd;border-radius:10px;">''\<close>

text \<open>
  What follows each occurrence of a string in a string, from left to right: for the
  opening tag of a tile, the contents of the tiles.
\<close>

fun occTails :: "'a list \<Rightarrow> 'a list \<Rightarrow> 'a list list" where
  "occTails p [] = []"
| "occTails p (c # cs) =
     (if prefix p (c # cs) then [drop (length p) (c # cs)] else []) @ occTails p cs"

definition headingOpen :: string where
  "headingOpen = ''<h2>''"

definition headingMissing :: string where
  "headingMissing = ''<h2>Critical: Missing env vars</h2>''"

definition headingRisky :: string where
  "headingRisky = ''<h2>Warnings: Risky usage</h2>''"

definition headingUnused :: string where
  "headingUnused = ''<h2>Info: Unused env vars</h2>''"

text \<open>
  A needle reaches over the end of a literal when a non-empty end of the literal is a
  proper beginning of the needle.
\<close>

fun straddles :: "'a list \<Rightarrow> 'a list \<Rightarrow> bool" where
  "straddles p [] = False"
| "straddles p (c # cs) = (strict_prefix (c # cs) p \<or> straddles p cs)"

text \<open>
  The report of a run over a project without source files, for a target echoed as
  \<open>target\<close>; and a string that holds each of the five characters.
\<close>

definition emptyProjectReport :: "jsstring \<Rightarrow> report" where
  "emptyProjectReport target =
     \<lparr>scannedInput = target,
      totals = \<lparr>filesScanned = 0, envVarsFound = 0, missingCount = 0, unusedCount = 0,
                riskyCount = 0\<rparr>,
      envVarsUsed = [], missing = [], unused = [], risky = [],
      locationsByEnvVar = Map.empty\<rparr>"

definition sampleText :: jsstring where
  \<open>sampleText = asc ''<a href="x">Tom & Jerry's</a>''\<close>

section \<open>Example runs\<close>

text \<open>
  A client component that reads \<^verbatim>\<open>API_KEY\<close> through both patterns on one line and
  \<^verbatim>\<open>OTHER\<close> on the next, beside a file that cannot be read; the env list declares
  \<^verbatim>\<open>API_KEY\<close> and \<^verbatim>\<open>DB_URL\<close>.
\<close>

definition clientPage :: jsstring where
  \<open>clientPage =
     asc ''"use client";\<newline>'' @
     asc ''const k = process.env.API_KEY || process.env["API_KEY"];\<newline>'' @
     asc ''const o = process.env.OTHER;\<newline>''\<close>

definition exampleRun :: input where
  "exampleRun =
     \<lparr>displayTarget = asc ''/srv/shop'',
      files = [(asc ''app/cart/page.tsx'', Some clientPage), (asc ''lib/gone.ts'', None)],
      envFile = EnvText (asc ''# secrets\<newline>API_KEY=abc\<newline>DB_URL = postgres://db\<newline>'')\<rparr>"

text \<open>
  The scenario of a client component at \<^verbatim>\<open>app/dashboard/page.tsx\<close> that reads
  \<^verbatim>\<open>STRIPE_SECRET_KEY\<close>, with no env list.
\<close>

definition dashboardPage :: jsstring where
  \<open>dashboardPage =
     asc ''"use client";\<newline>'' @
     asc ''export const stripe = connect(process.env.STRIPE_SECRET_KEY);\<newline>''\<close>

definition dashboardRun :: "jsstring \<Rightarrow> jsstring \<Rightarrow> input" where
  "dashboardRun target text =
     \<lparr>displayTarget = target,
      files = [(asc ''app/dashboard/page.tsx'', Some text)],
      envFile = NoEnvFile\<rparr>"

text \<open>
  The scenario of a route handler at \<^verbatim>\<open>src/app/api/users/route.ts\<close> that reads
  \<^verbatim>\<open>NEXT_PUBLIC_API_BASE\<close> through the bracket pattern, with no env list.
\<close>

definition usersRoute :: jsstring where
  \<open>usersRoute =
     asc ''export async function GET() {\<newline>'' @
     asc ''  return fetch(process.env["NEXT_PUBLIC_API_BASE"] + "/users");\<newline>'' @
     asc ''}\<newline>''\<close>

definition routeRun :: "jsstring \<Rightarrow> jsstring \<Rightarrow> input" where
  "routeRun target text =
     \<lparr>displayTarget = target,
      files = [(asc ''src/app/api/users/route.ts'', Some text)],
      envFile = NoEnvFile\<rparr>"

section \<open>Properties of the string operations\<close>

lemma asc_Nil: "asc [] = []"
  by (simp add: asc_def)

lemma asc_Cons: "asc (c # cs) = of_char c # asc cs"
  by (simp add: asc_def)

lemma indexOf_None: "indexOf s c = None \<longleftrightarrow> c \<notin> set s"
  by (induction s) auto

lemma indexOf_Some: "c \<in> set s \<Longrightarrow> indexOf s c = Some (length (takeWhile (\<lambda>x. x \<noteq> c) s))"
  by (induction s) auto

lemma take_indexOf:
  "indexOf s c = Some i \<Longrightarrow> take i s = takeWhile (\<lambda>x. x \<noteq> c) s"
proof -
  assume a: "indexOf s c = Some i"
  then have "c \<in> set s"
    using indexOf_None [of s c] by auto
  then have "i = length (takeWhile (\<lambda>x. x \<noteq> c) s)"
    using a indexOf_Some [of c s] by simp
  then show ?thesis
    by (metis takeWhile_eq_take)
qed

section \<open>Properties of the env-list parser\<close>

lemma set_set_add: "set (set_add k ks) = insert k (set ks)"
  by (auto simp: set_add_def)

lemma parseEnvLine_set:
  "set (parseEnvLine keys raw) = set keys \<union> set_option (declaredKey raw)"
proof (cases "indexOf (trim raw) 0x3D")
  case None
  then have "0x3D \<notin> set (trim raw)"
    by (simp add: indexOf_None)
  with None show ?thesis
    by (simp add: parseEnvLine_def declaredKey_def declaredKey_spec_def Let_def)
next
  case (Some i)
  then have "0x3D \<in> set (trim raw)"
    using indexOf_None [of "trim raw" "0x3D"] by auto
  with Some take_indexOf [OF Some] show ?thesis
    by (simp add: parseEnvLine_def declaredKey_def declaredKey_spec_def Let_def set_set_add)
qed

lemma foldl_parseEnvLine_set:
  "set (foldl parseEnvLine keys raws) = set keys \<union> set (List.map_filter declaredKey raws)"
proof (induction raws arbitrary: keys)
  case Nil
  show ?case by (simp add: map_filter_simps)
next
  case (Cons raw raws)
  show ?case
    by (cases "declaredKey raw")
       (auto simp: Cons.IH parseEnvLine_set map_filter_simps)
qed

text \<open>
  Claim C6, as amended. For every input text the env-list parser returns exactly the
  keys obtained by splitting the text into lines and, for each line: trimming it;
  skipping it if it is empty or starts with \<^verbatim>\<open>#\<close>; skipping it if it has no \<^verbatim>\<open>=\<close>;
  skipping it if the trimmed substring before the first \<^verbatim>\<open>=\<close> is empty; otherwise
  declaring that trimmed substring as a key. The parser is a total function: no line
  makes it fail.
\<close>

theorem parseEnvKeys_declared:
  "set (parseEnvKeys envText) = set (List.map_filter declaredKey (splitStr envText newline))"
  by (simp add: parseEnvKeys_def foldl_parseEnvLine_set)

text \<open>
  Claim C6 as the specification states it fails on the line \<^verbatim>\<open>=x\<close>: the words of
  the specification declare the empty key, the parser declares nothing.
\<close>

theorem parseEnvKeys_spec_counterexample:
  "set (parseEnvKeys (asc ''=x'')) \<noteq> parseEnvKeys_spec (asc ''=x'')"
  by (simp add: parseEnvKeys_def parseEnvKeys_spec_def parseEnvLine_def declaredKey_spec_def
      asc_def newline_def trim_def isWhiteSpace_def startsWith_def map_filter_simps Let_def)

section \<open>Properties of the usage extractor\<close>

lemma matchAll_at:
  "(i, k) \<in> set (matchAll re idx s) \<Longrightarrow> idx \<le> i \<and> (\<exists>n. re (drop (i - idx) s) = Some (k, n))"
proof (induction re idx s arbitrary: i rule: matchAll.induct)
  case (1 re idx s)
  show ?case
  proof (cases "re s")
    case None
    show ?thesis
    proof (cases s)
      case Nil
      with None 1 show ?thesis by (simp add: matchAll.simps [of re idx])
    next
      case (Cons c cs)
      with None 1(3) have m: "(i, k) \<in> set (matchAll re (idx + 1) cs)"
        by (simp add: matchAll.simps [of re idx])
      from 1(1) [OF None Cons m] obtain n where "idx + 1 \<le> i" "re (drop (i - (idx + 1)) cs) = Some (k, n)"
        by auto
      moreover have "drop (i - idx) s = drop (i - (idx + 1)) cs"
      proof -
        from \<open>idx + 1 \<le> i\<close> have "i - idx = Suc (i - (idx + 1))" by arith
        with Cons show ?thesis by simp
      qed
      ultimately show ?thesis by auto
    qed
  next
    case (Some a)
    obtain key n where a: "a = (key, n)" by (cases a)
    show ?thesis
    proof (cases "s = []")
      case True
      with Some a 1(3) show ?thesis by (auto simp: matchAll.simps [of re idx])
    next
      case False
      from Some a False 1(3) consider "i = idx" "k = key" | "(i, k) \<in> set (matchAll re (idx + max n 1) (drop (max n 1) s))"
        by (auto simp: matchAll.simps [of re idx])
      then show ?thesis
      proof cases
        case 1
        with Some a show ?thesis by auto
      next
        case 2
        from 1(2) [OF Some a [symmetric] False 2]  obtain n' where "idx + max n 1 \<le> i" "re (drop (i - (idx + max n 1)) (drop (max n 1) s)) = Some (k, n')"
          by auto
        moreover have "drop (i - (idx + max n 1)) (drop (max n 1) s) = drop (i - idx) s"
          using \<open>idx + max n 1 \<le> i\<close> by (simp add: add.commute)
        ultimately show ?thesis by auto
      qed
    qed
  qed
qed

lemma matchAll_increasing:
  "sorted_wrt (<) (map fst (matchAll re idx s))"
proof (induction re idx s rule: matchAll.induct)
  case (1 re idx s)
  show ?case
  proof (cases "re s")
    case None
    with 1 show ?thesis
      by (cases s) (auto simp: matchAll.simps [of re idx])
  next
    case (Some a)
    obtain key n where a: "a = (key, n)" by (cases a)
    show ?thesis
    proof (cases "s = []")
      case True
      with Some a show ?thesis by (simp add: matchAll.simps [of re idx])
    next
      case False
      have "\<forall>x \<in> set (matchAll re (idx + max n 1) (drop (max n 1) s)). idx < fst x"
        using matchAll_at [of _ _ re "idx + max n 1" "drop (max n 1) s"] by fastforce
      with Some a False 1(2) [OF Some a [symmetric] False] show ?thesis
        by (simp add: matchAll.simps [of re idx])
    qed
  qed
qed
lemma isKeyChar_not_special:
  "isKeyChar c \<Longrightarrow> \<not> isWhiteSpace c \<and> c \<noteq> 0x3D \<and> c \<noteq> 0x23 \<and> c \<noteq> newline"
  unfolding isKeyChar_def isWhiteSpace_def newline_def
  by (auto simp: word_le_nat_alt)

lemma reDot_name: "reDot s = Some (k, n) \<Longrightarrow> isVariableName k"
  by (auto simp: reDot_def isVariableName_def Let_def list_all_iff split: if_splits dest: set_takeWhileD)

lemma reBracket_name: "reBracket s = Some (k, n) \<Longrightarrow> isVariableName k"
  by (auto simp: reBracket_def isVariableName_def Let_def list_all_iff split: if_splits list.splits dest: set_takeWhileD)

lemma map_of_map_push:
  "map_of (map (\<lambda>(k, locs). if k = key then (k, locs @ [oc]) else (k, locs)) used) k' =
   map_option (\<lambda>locs. if k' = key then locs @ [oc] else locs) (map_of used k')"
  by (induction used) auto

lemma locsOf_recordMatch:
  "locsOf (recordMatch relFile text isC isS used (idx, key)) k =
   locsOf used k @
   (if k = key
    then [\<lparr>occ_file = relFile, occ_line = getLineNumber text idx, isClient = isC, isServerFile = isS\<rparr>]
    else [])"
proof (cases "has used key")
  case True
  then have "map_of used key \<noteq> None"
    by (simp add: has_def map_of_eq_None_iff)
  with True show ?thesis
    by (auto simp: locsOf_def recordMatch_def Let_def map_of_map_push split: option.splits)
next
  case False
  then have "map_of used key = None"
    by (simp add: has_def map_of_eq_None_iff)
  with False show ?thesis
    by (auto simp: locsOf_def recordMatch_def Let_def map_of_map_push map_add_def
        split: option.splits)
qed

lemma keys_recordMatch:
  "map fst (recordMatch relFile text isC isS used (idx, key)) =
   (if key \<in> set (map fst used) then map fst used else map fst used @ [key])"
proof -
  have "map fst (map (\<lambda>(k, locs). if k = key then (k, locs @ [oc]) else (k, locs)) u) = map fst u" for u oc
    by (induction u) auto
  then show ?thesis
    by (auto simp: recordMatch_def has_def Let_def)
qed

lemma locsOf_foldl_recordMatch:
  "locsOf (foldl (recordMatch relFile text isC isS) used ms) k =
   locsOf used k @
   map (\<lambda>i. \<lparr>occ_file = relFile, occ_line = getLineNumber text i, isClient = isC, isServerFile = isS\<rparr>)
     (matchesOf k ms)"
proof (induction ms arbitrary: used)
  case Nil
  show ?case by (simp add: matchesOf_def)
next
  case (Cons m ms)
  obtain idx key where m: "m = (idx, key)" by (cases m)
  show ?case
    by (simp add: Cons.IH m locsOf_recordMatch matchesOf_def)
qed

lemma keys_foldl_recordMatch:
  "set (map fst (foldl (recordMatch relFile text isC isS) used ms)) = set (map fst used) \<union> snd ` set ms"
proof (induction ms arbitrary: used)
  case Nil
  show ?case by simp
next
  case (Cons m ms)
  obtain idx key where m: "m = (idx, key)" by (cases m)
  show ?case
    unfolding foldl_Cons Cons.IH m keys_recordMatch by auto
qed

lemma distinct_foldl_recordMatch:
  "distinct (map fst used) \<Longrightarrow> distinct (map fst (foldl (recordMatch relFile text isC isS) used ms))"
proof (induction ms arbitrary: used)
  case Nil
  then show ?case by simp
next
  case (Cons m ms)
  obtain idx key where m: "m = (idx, key)" by (cases m)
  have "distinct (map fst (recordMatch relFile text isC isS used (idx, key)))"
    unfolding keys_recordMatch using Cons.prems by auto
  then show ?case
    unfolding foldl_Cons m by (rule Cons.IH)
qed

text \<open>Every entry of the index has at least one occurrence.\<close>

lemma nonempty_recordMatch:
  "\<forall>(k, locs) \<in> set used. locs \<noteq> [] \<Longrightarrow>
   \<forall>(k, locs) \<in> set (recordMatch relFile text isC isS used (idx, key)). locs \<noteq> []"
  by (auto simp: recordMatch_def Let_def split: if_splits)

lemma nonempty_foldl_recordMatch:
  "\<forall>(k, locs) \<in> set used. locs \<noteq> [] \<Longrightarrow>
   \<forall>(k, locs) \<in> set (foldl (recordMatch relFile text isC isS) used ms). locs \<noteq> []"
proof (induction ms arbitrary: used)
  case Nil
  then show ?case by simp
next
  case (Cons m ms)
  obtain idx key where m: "m = (idx, key)" by (cases m)
  show ?case
    unfolding foldl_Cons m by (rule Cons.IH) (rule nonempty_recordMatch [OF Cons.prems])
qed
lemma names_foldl_recordMatch:
  assumes "\<forall>k \<in> set (map fst used). isVariableName k"
    and "\<forall>m \<in> set ms. isVariableName (snd m)"
  shows "\<forall>k \<in> set (map fst (foldl (recordMatch relFile text isC isS) used ms)). isVariableName k"
  using assms unfolding keys_foldl_recordMatch by auto

lemma matchAll_reDot_names: "\<forall>m \<in> set (matchAll reDot idx s). isVariableName (snd m)"
  using matchAll_at [of _ _ reDot idx s] reDot_name by fastforce

lemma matchAll_reBracket_names: "\<forall>m \<in> set (matchAll reBracket idx s). isVariableName (snd m)"
  using matchAll_at [of _ _ reBracket idx s] reBracket_name by fastforce

lemma wellFormed_iff:
  "wellFormed used \<longleftrightarrow>
     distinct (map fst used) \<and> (\<forall>(k, locs) \<in> set used. locs \<noteq> []) \<and>
     (\<forall>k \<in> set (map fst used). isVariableName k)"
  by (auto simp: wellFormed_def list_all_iff)

lemma wellFormed_scanFile:
  assumes "wellFormed used"
  shows "wellFormed (scanFile used relFile text)"
  using assms unfolding wellFormed_iff scanFile_def Let_def
  by (intro conjI distinct_foldl_recordMatch nonempty_foldl_recordMatch names_foldl_recordMatch
      matchAll_reDot_names matchAll_reBracket_names) simp_all

lemma wellFormed_foldl_scanStep:
  "wellFormed used \<Longrightarrow> wellFormed (foldl scanStep used fs)"
proof (induction fs arbitrary: used)
  case Nil
  then show ?case by simp
next
  case (Cons f fs)
  obtain relFile content where f: "f = (relFile, content)" by (cases f)
  have "wellFormed (scanStep used f)"
    using Cons.prems by (cases content) (simp_all add: f scanStep_def wellFormed_scanFile)
  then show ?case
    unfolding foldl_Cons by (rule Cons.IH)
qed

lemma wellFormed_scanFiles: "wellFormed (scanFiles fs)"
  unfolding scanFiles_def by (rule wellFormed_foldl_scanStep) (simp add: wellFormed_def)

lemma sorted_matchesOf: "sorted_wrt (<) (matchesOf key (matchAll r idx text))"
  using matchAll_increasing [of r idx "text"]
  by (simp add: matchesOf_def sorted_wrt_map sorted_wrt_filter)

lemma matchAll_first:
  assumes "\<forall>j<i. re (drop j s) = None" and "re (drop i s) = Some (k, n)" and "drop i s \<noteq> []"
  shows "matchAll re idx s =
           (idx + i, k) # matchAll re (idx + i + max n 1) (drop (i + max n 1) s)"
  using assms
proof (induction i arbitrary: s idx)
  case 0
  then show ?case by (simp add: matchAll.simps [of re idx s])
next
  case (Suc i)
  from Suc.prems(3) obtain c cs where s: "s = c # cs" by (cases s) auto
  from Suc.prems(1) have none: "re s = None" by auto
  have "\<forall>j<i. re (drop j cs) = None"
  proof (intro allI impI)
    fix j assume "j < i"
    then have "re (drop (Suc j) s) = None" using Suc.prems(1) by auto
    then show "re (drop j cs) = None" by (simp add: s)
  qed
  moreover from Suc.prems(2) have "re (drop i cs) = Some (k, n)" by (simp add: s)
  moreover from Suc.prems(3) have "drop i cs \<noteq> []" by (simp add: s)
  ultimately have "matchAll re (idx + 1) cs =
      (idx + 1 + i, k) # matchAll re (idx + 1 + i + max n 1) (drop (i + max n 1) cs)"
    by (rule Suc.IH)
  with none show ?case
    by (simp add: s matchAll.simps [of re idx "c # cs"])
qed

lemma length_asc: "length (asc s) = length s"
  by (simp add: asc_def)

lemma takeWhile_run:
  assumes "\<forall>c \<in> set k. P c" and "post = [] \<or> \<not> P (hd post)"
  shows "takeWhile P (k @ post) = k" and "dropWhile P (k @ post) = post"
proof -
  from assms(2) have "takeWhile P post = []" "dropWhile P post = post"
    by (cases post; auto)+
  with assms(1) show "takeWhile P (k @ post) = k" and "dropWhile P (k @ post) = post"
    by (simp_all add: takeWhile_append2 dropWhile_append2)
qed

lemma reDot_reference:
  assumes "isVariableName k" and "post = [] \<or> \<not> isKeyChar (hd post)"
  shows "reDot (asc ''process.env.'' @ k @ post) = Some (k, 12 + length k)"
proof -
  from assms(1) have k: "k \<noteq> []" "\<forall>c \<in> set k. isKeyChar c"
    by (auto simp: isVariableName_def list_all_iff)
  have "drop 12 (asc ''process.env.'' @ k @ post) = k @ post"
    by (simp add: length_asc)
  with takeWhile_run(1) [OF k(2) assms(2)] k(1) show ?thesis
    by (simp add: reDot_def Let_def)
qed

lemma quote_not_key: "isQuote q \<Longrightarrow> \<not> isKeyChar q"
  by (auto simp: isQuote_def isKeyChar_def)

lemma reBracket_reference:
  assumes "isVariableName k" and "isQuote q" and "isQuote q'"
  shows "reBracket (asc ''process.env['' @ q # k @ q' # 0x5D # post) = Some (k, 15 + length k)"
proof -
  from assms(1) have k: "k \<noteq> []" "\<forall>c \<in> set k. isKeyChar c"
    by (auto simp: isVariableName_def list_all_iff)
  have d: "drop 12 (asc ''process.env['' @ q # k @ q' # 0x5D # post) = q # k @ q' # 0x5D # post"
    by (simp add: length_asc)
  have "(q' # 0x5D # post) = [] \<or> \<not> isKeyChar (hd (q' # 0x5D # post))"
    using quote_not_key [OF assms(3)] by simp
  from takeWhile_run [OF k(2) this] k(1) assms(2,3) show ?thesis
    unfolding reBracket_def d by (simp add: Let_def)
qed

lemma reDot_literal: "\<not> prefix (asc ''process.env.'') s \<Longrightarrow> reDot s = None"
  by (simp add: reDot_def)

lemma reBracket_literal: "\<not> prefix (asc ''process.env['') s \<Longrightarrow> reBracket s = None"
  by (simp add: reBracket_def)

lemma first_dot_reference:
  assumes "text = pre @ asc ''process.env.'' @ k @ post"
    and "isVariableName k" and "post = [] \<or> \<not> isKeyChar (hd post)"
    and "\<forall>j<length pre. \<not> prefix (asc ''process.env.'') (drop j text)"
  shows "matchAll reDot 0 text =
           (length pre, k) # matchAll reDot (length pre + (12 + length k)) post"
proof -
  have n: "\<forall>j<length pre. reDot (drop j text) = None"
    using assms(4) reDot_literal by blast
  have m: "reDot (drop (length pre) text) = Some (k, 12 + length k)"
    using reDot_reference [OF assms(2,3)] by (simp add: assms(1))
  have e: "drop (length pre) text \<noteq> []"
    by (simp add: assms(1) asc_def)
  have "drop (length pre + max (12 + length k) 1) text = post"
    by (simp add: assms(1) length_asc)
  with matchAll_first [OF n m e, of 0] show ?thesis
    by simp
qed

lemma first_bracket_reference:
  assumes "text = pre @ asc ''process.env['' @ q # k @ q' # 0x5D # post"
    and "isVariableName k" and "isQuote q" and "isQuote q'"
    and "\<forall>j<length pre. \<not> prefix (asc ''process.env['') (drop j text)"
  shows "matchAll reBracket 0 text =
           (length pre, k) # matchAll reBracket (length pre + (15 + length k)) post"
proof -
  have n: "\<forall>j<length pre. reBracket (drop j text) = None"
    using assms(5) reBracket_literal by blast
  have m: "reBracket (drop (length pre) text) = Some (k, 15 + length k)"
    using reBracket_reference [OF assms(2,3,4)] by (simp add: assms(1))
  have e: "drop (length pre) text \<noteq> []"
    by (simp add: assms(1) asc_def)
  have "drop (length pre + max (15 + length k) 1) text = post"
    by (simp add: assms(1) length_asc eval_nat_numeral)
  with matchAll_first [OF n m e, of 0] show ?thesis
    by simp
qed

lemma scanFile_appends:
  "locsOf (scanFile used relFile text) key =
     locsOf used key @
     map (occurrenceAt relFile text) (matchesOf key (matchAll reDot 0 text)) @
     map (occurrenceAt relFile text) (matchesOf key (matchAll reBracket 0 text))"
  by (simp add: scanFile_def Let_def locsOf_foldl_recordMatch occurrenceAt_def [abs_def])

text \<open>
  Claim C7. Scanning one file appends to the occurrences of every key first the
  matches of the dot pattern, then the matches of the bracket pattern, each pattern's
  matches by increasing index in the text; every match gives an occurrence of its
  own, so a key matched by both patterns (on one line or not) gains one entry per
  match. And references are matched: where \<^verbatim>\<open>process.env.\<close> occurs first in a text
  and a variable name follows it, that is the first match of the dot pattern; where
  \<^verbatim>\<open>process.env[\<close> occurs first and a quote, a variable name, a quote and
  \<^verbatim>\<open>]\<close> follow it, that is the first match of the bracket pattern; the search goes
  on behind the match.
\<close>

theorem scanFile_discovery_order:
  "locsOf (scanFile used relFile text) key =
     locsOf used key @
     map (occurrenceAt relFile text) (matchesOf key (matchAll reDot 0 text)) @
     map (occurrenceAt relFile text) (matchesOf key (matchAll reBracket 0 text))
   \<and> sorted_wrt (<) (matchesOf key (matchAll reDot 0 text))
   \<and> sorted_wrt (<) (matchesOf key (matchAll reBracket 0 text))
   \<and> length (locsOf (scanFile used relFile text) key) =
     length (locsOf used key) + length (matchesOf key (matchAll reDot 0 text)) +
     length (matchesOf key (matchAll reBracket 0 text))
   \<and> (text = pre @ asc ''process.env.'' @ k @ post \<and> isVariableName k \<and>
      (post = [] \<or> \<not> isKeyChar (hd post)) \<and>
      (\<forall>j<length pre. \<not> prefix (asc ''process.env.'') (drop j text)) \<longrightarrow>
        matchAll reDot 0 text =
          (length pre, k) # matchAll reDot (length pre + (12 + length k)) post)
   \<and> (text = pre' @ asc ''process.env['' @ q # k' @ q' # 0x5D # post' \<and> isVariableName k' \<and>
      isQuote q \<and> isQuote q' \<and>
      (\<forall>j<length pre'. \<not> prefix (asc ''process.env['') (drop j text)) \<longrightarrow>
        matchAll reBracket 0 text =
          (length pre', k') # matchAll reBracket (length pre' + (15 + length k')) post')"
proof (intro conjI impI)
  show "locsOf (scanFile used relFile text) key =
     locsOf used key @
     map (occurrenceAt relFile text) (matchesOf key (matchAll reDot 0 text)) @
     map (occurrenceAt relFile text) (matchesOf key (matchAll reBracket 0 text))"
    by (rule scanFile_appends)
  show "sorted_wrt (<) (matchesOf key (matchAll reDot 0 text))"
    by (rule sorted_matchesOf)
  show "sorted_wrt (<) (matchesOf key (matchAll reBracket 0 text))"
    by (rule sorted_matchesOf)
  show "length (locsOf (scanFile used relFile text) key) =
     length (locsOf used key) + length (matchesOf key (matchAll reDot 0 text)) +
     length (matchesOf key (matchAll reBracket 0 text))"
    by (simp add: scanFile_appends)
next
  assume "text = pre @ asc ''process.env.'' @ k @ post \<and> isVariableName k \<and>
      (post = [] \<or> \<not> isKeyChar (hd post)) \<and>
      (\<forall>j<length pre. \<not> prefix (asc ''process.env.'') (drop j text))"
  then show "matchAll reDot 0 text =
          (length pre, k) # matchAll reDot (length pre + (12 + length k)) post"
    by (elim conjE) (rule first_dot_reference)
next
  assume "text = pre' @ asc ''process.env['' @ q # k' @ q' # 0x5D # post' \<and> isVariableName k' \<and>
      isQuote q \<and> isQuote q' \<and>
      (\<forall>j<length pre'. \<not> prefix (asc ''process.env['') (drop j text))"
  then show "matchAll reBracket 0 text =
          (length pre', k') # matchAll reBracket (length pre' + (15 + length k')) post'"
    by (elim conjE) (rule first_bracket_reference)
qed

lemma clientPage_split:
  \<open>clientPage =
     asc ''"use client";\<newline>const k = '' @ asc ''process.env.'' @ asc ''API_KEY'' @
     asc '' || process.env["API_KEY"];\<newline>const o = process.env.OTHER;\<newline>''\<close>
  \<open>clientPage =
     asc ''"use client";\<newline>const k = process.env.API_KEY || '' @ asc ''process.env['' @
     0x22 # asc ''API_KEY'' @ 0x22 # 0x5D # asc '';\<newline>const o = process.env.OTHER;\<newline>''\<close>
  by (simp_all add: clientPage_def asc_def)

lemma clientPage_first:
  "list_all (\<lambda>j. \<not> prefix (asc ''process.env.'') (drop j clientPage)) [0..<24]"
  "list_all (\<lambda>j. \<not> prefix (asc ''process.env['') (drop j clientPage)) [0..<47]"
  by code_simp+

lemma clientPage_rest:
  \<open>matchAll reDot 43
     (asc '' || process.env["API_KEY"];\<newline>const o = process.env.OTHER;\<newline>'') =
   [(81, asc ''OTHER'')]\<close>
  \<open>matchAll reBracket 69 (asc '';\<newline>const o = process.env.OTHER;\<newline>'') = []\<close>
  by code_simp+

lemma clientPage_facts:
  "isVariableName (asc ''API_KEY'')" "isQuote 0x22"
  \<open>\<not> isKeyChar (hd (asc '' || process.env["API_KEY"];\<newline>const o = process.env.OTHER;\<newline>''))\<close>
  "occurrenceAt (asc ''app/cart/page.tsx'') clientPage 24 =
     \<lparr>occ_file = asc ''app/cart/page.tsx'', occ_line = 2, isClient = True, isServerFile = False\<rparr>"
  "occurrenceAt (asc ''app/cart/page.tsx'') clientPage 47 =
     \<lparr>occ_file = asc ''app/cart/page.tsx'', occ_line = 2, isClient = True, isServerFile = False\<rparr>"
  by code_simp+

lemma all_less_list_all: "(\<forall>j<n. P j) \<longleftrightarrow> list_all P [0..<n]"
  by (auto simp: list_all_iff)

text \<open>
  The client page of the example run reads \<^verbatim>\<open>API_KEY\<close> through both patterns on its
  second line: the dot match is at index 24, the bracket match at index 47, and the
  key gets two occurrences for line 2.
\<close>

theorem scanFile_discovery_order_witness:
  \<open>clientPage =
     asc ''"use client";\<newline>const k = '' @ asc ''process.env.'' @ asc ''API_KEY'' @
     asc '' || process.env["API_KEY"];\<newline>const o = process.env.OTHER;\<newline>'' \<and>
   clientPage =
     asc ''"use client";\<newline>const k = process.env.API_KEY || '' @ asc ''process.env['' @
     0x22 # asc ''API_KEY'' @ 0x22 # 0x5D # asc '';\<newline>const o = process.env.OTHER;\<newline>'' \<and>
   isVariableName (asc ''API_KEY'') \<and>
   list_all (\<lambda>j. \<not> prefix (asc ''process.env.'') (drop j clientPage)) [0..<24] \<and>
   list_all (\<lambda>j. \<not> prefix (asc ''process.env['') (drop j clientPage)) [0..<47] \<and>
   matchAll reDot 0 clientPage = [(24, asc ''API_KEY''), (81, asc ''OTHER'')] \<and>
   matchAll reBracket 0 clientPage = [(47, asc ''API_KEY'')] \<and>
   locsOf (scanFile [] (asc ''app/cart/page.tsx'') clientPage) (asc ''API_KEY'') =
     [\<lparr>occ_file = asc ''app/cart/page.tsx'', occ_line = 2, isClient = True, isServerFile = False\<rparr>,
      \<lparr>occ_file = asc ''app/cart/page.tsx'', occ_line = 2, isClient = True, isServerFile = False\<rparr>]\<close>
proof -
  let ?pre = \<open>asc ''"use client";\<newline>const k = ''\<close>
  let ?post = \<open>asc '' || process.env["API_KEY"];\<newline>const o = process.env.OTHER;\<newline>''\<close>
  let ?pre' = \<open>asc ''"use client";\<newline>const k = process.env.API_KEY || ''\<close>
  let ?post' = \<open>asc '';\<newline>const o = process.env.OTHER;\<newline>''\<close>
  let ?K = "asc ''API_KEY''"
  note t = scanFile_discovery_order [of "[]" "asc ''app/cart/page.tsx''" clientPage ?K
      ?pre ?K ?post ?pre' "0x22" ?K "0x22" ?post']
  have lp: "length ?pre = 24" "length ?pre' = 47" "length ?K = 7"
    by (simp_all add: asc_def)
  have f: "\<forall>j<length ?pre. \<not> prefix (asc ''process.env.'') (drop j clientPage)"
    "\<forall>j<length ?pre'. \<not> prefix (asc ''process.env['') (drop j clientPage)"
    unfolding lp all_less_list_all by (rule clientPage_first)+
  from t clientPage_split(1) clientPage_facts(1,3) f(1)
  have "matchAll reDot 0 clientPage = (length ?pre, ?K) # matchAll reDot (length ?pre + (12 + length ?K)) ?post"
    by blast
  then have d: "matchAll reDot 0 clientPage = [(24, ?K), (81, asc ''OTHER'')]"
    by (simp only: lp) (simp add: clientPage_rest)
  from t clientPage_split(2) clientPage_facts(1,2) f(2)
  have "matchAll reBracket 0 clientPage =
      (length ?pre', ?K) # matchAll reBracket (length ?pre' + (15 + length ?K)) ?post'"
    by blast
  then have b: "matchAll reBracket 0 clientPage = [(47, ?K)]"
    by (simp only: lp) (simp add: clientPage_rest)
  have o: "asc ''OTHER'' \<noteq> ?K"
    by (simp add: asc_def)
  from t have "locsOf (scanFile [] (asc ''app/cart/page.tsx'') clientPage) ?K =
     locsOf [] ?K @
     map (occurrenceAt (asc ''app/cart/page.tsx'') clientPage) (matchesOf ?K (matchAll reDot 0 clientPage)) @
     map (occurrenceAt (asc ''app/cart/page.tsx'') clientPage) (matchesOf ?K (matchAll reBracket 0 clientPage))"
    by blast
  then have l: "locsOf (scanFile [] (asc ''app/cart/page.tsx'') clientPage) ?K =
     [\<lparr>occ_file = asc ''app/cart/page.tsx'', occ_line = 2, isClient = True, isServerFile = False\<rparr>,
      \<lparr>occ_file = asc ''app/cart/page.tsx'', occ_line = 2, isClient = True, isServerFile = False\<rparr>]"
    unfolding d b by (simp add: matchesOf_def locsOf_def o clientPage_facts(4,5))
  show ?thesis
    by (intro conjI clientPage_split clientPage_facts(1) clientPage_first d b l)
qed

section \<open>Properties of a run\<close>

lemma set_foldl_set_add: "set (foldl (\<lambda>ks k. set_add k ks) acc xs) = set acc \<union> set xs"
  by (induction xs arbitrary: acc) (auto simp: set_set_add)

lemma set_newSet: "set (newSet xs) = set xs"
  by (simp add: newSet_def set_foldl_set_add)

lemma foldl_set_add_distinct:
  "distinct (acc @ xs) \<Longrightarrow> foldl (\<lambda>ks k. set_add k ks) acc xs = acc @ xs"
proof (induction xs arbitrary: acc)
  case Nil
  show ?case by simp
next
  case (Cons x xs)
  from Cons.prems have "set_add x acc = acc @ [x]" by (simp add: set_add_def)
  moreover from Cons.prems have "distinct ((acc @ [x]) @ xs)" by simp
  ultimately show ?case using Cons.IH [of "acc @ [x]"] by simp
qed

lemma newSet_distinct: "distinct xs \<Longrightarrow> newSet xs = xs"
  using foldl_set_add_distinct [of "[]" xs] by (simp add: newSet_def)

lemma usedKeysOf_wellFormed: "wellFormed used \<Longrightarrow> usedKeysOf used = map fst used"
  by (simp add: usedKeysOf_def wellFormed_def newSet_distinct)

lemma usedKeysOf_scanFiles: "usedKeysOf (scanFiles fs) = map fst (scanFiles fs)"
  by (rule usedKeysOf_wellFormed) (rule wellFormed_scanFiles)

lemma appendE_Inr:
  "appendE a b = Inr zs \<longleftrightarrow> (\<exists>xs ys. a = Inr xs \<and> b = Inr ys \<and> zs = xs @ ys)"
  by (auto simp: appendE_def split: sum.splits)

lemma riskChecksFor_total:
  "locs \<noteq> [] \<Longrightarrow> \<exists>rs. riskChecksFor ms (key, locs) = Inr rs"
  by (cases locs)
     (auto simp: riskChecksFor_def appendE_Inr riskSecretExposed_def riskPublicSensitive_def
       riskClientSecret_def riskPublicServerOnly_def firstLocation_def Let_def
       split: option.splits)

lemma riskChecks_total:
  "list_all (\<lambda>(k, locs). locs \<noteq> []) used \<Longrightarrow> \<exists>rs. riskChecks ms used = Inr rs"
proof (induction used)
  case Nil
  show ?case by simp
next
  case (Cons entry used)
  obtain key locs where e: "entry = (key, locs)" by (cases entry)
  with Cons.prems have "locs \<noteq> []" by simp
  then obtain xs where "riskChecksFor ms (key, locs) = Inr xs"
    using riskChecksFor_total by blast
  moreover from Cons obtain ys where "riskChecks ms used = Inr ys" by auto
  ultimately show ?case by (simp add: e appendE_Inr)
qed

lemma riskChecks_scanFiles_total: "\<exists>rs. riskChecks ms (scanFiles fs) = Inr rs"
proof -
  have "list_all (\<lambda>(k, locs). locs \<noteq> []) (scanFiles fs)"
    using wellFormed_scanFiles [of fs] by (auto simp: wellFormed_def list_all_iff)
  then show ?thesis by (rule riskChecks_total)
qed

text \<open>What a run that ends well has written.\<close>

lemma main_Inr:
  assumes "main inp = Inr out"
  obtains providedKeys risky0 where
    "readProvidedKeys (envFile inp) = Inr providedKeys"
    "riskChecks (newSet (missingOf (map fst (scanFiles (files inp))) providedKeys))
       (scanFiles (files inp)) = Inr risky0"
    "reportJson out =
       \<lparr>scannedInput = displayTarget inp,
        totals =
          \<lparr>filesScanned = length (files inp),
           envVarsFound = length (map fst (scanFiles (files inp))),
           missingCount = length (missingOf (map fst (scanFiles (files inp))) providedKeys),
           unusedCount = length (unusedOf (map fst (scanFiles (files inp))) providedKeys),
           riskyCount = length risky0\<rparr>,
        envVarsUsed = sort (map fst (scanFiles (files inp))),
        missing = sort (missingOf (map fst (scanFiles (files inp))) providedKeys),
        unused = sort (unusedOf (map fst (scanFiles (files inp))) providedKeys),
        risky = risky0,
        locationsByEnvVar = map_of (scanFiles (files inp))\<rparr>"
    "envExample out = exampleLines (map fst (scanFiles (files inp))) @ [newline]"
    "reportHtml out = renderHtml (reportJson out) (scanFiles (files inp))"
  using assms
  by (auto simp: main_def Let_def usedKeysOf_scanFiles split: sum.splits)

lemma main_total:
  assumes "envFile inp \<noteq> EnvUnreadable"
  shows "\<exists>out. main inp = Inr out"
proof -
  from assms obtain P where P: "readProvidedKeys (envFile inp) = Inr P"
    by (cases "envFile inp") (auto simp: readProvidedKeys_def)
  obtain rs where
    "riskChecks (newSet (missingOf (usedKeysOf (scanFiles (files inp))) P)) (scanFiles (files inp)) = Inr rs"
    using riskChecks_scanFiles_total by blast
  with P show ?thesis
    by (simp add: main_def Let_def)
qed

lemma example_scan:
  "scanFiles (files exampleRun) =
     [(asc ''API_KEY'',
       [\<lparr>occ_file = asc ''app/cart/page.tsx'', occ_line = 2, isClient = True, isServerFile = False\<rparr>,
        \<lparr>occ_file = asc ''app/cart/page.tsx'', occ_line = 2, isClient = True, isServerFile = False\<rparr>]),
      (asc ''OTHER'',
       [\<lparr>occ_file = asc ''app/cart/page.tsx'', occ_line = 3, isClient = True, isServerFile = False\<rparr>])]"
  by code_simp

lemma example_env:
  "readProvidedKeys (envFile exampleRun) = Inr [asc ''API_KEY'', asc ''DB_URL'']"
  by code_simp

lemma example_missing:
  "sort (missingOf (map fst (scanFiles (files exampleRun))) [asc ''API_KEY'', asc ''DB_URL'']) = [asc ''OTHER'']"
  unfolding example_scan by code_simp

lemma example_risky:
  "riskChecks (newSet (missingOf (map fst (scanFiles (files exampleRun))) [asc ''API_KEY'', asc ''DB_URL'']))
       (scanFiles (files exampleRun)) =
   Inr [finding typeSecretExposed (asc ''API_KEY'')
          \<lparr>occ_file = asc ''app/cart/page.tsx'', occ_line = 2, isClient = True, isServerFile = False\<rparr>
          whySecretExposed,
        finding typeClientSecret (asc ''API_KEY'')
          \<lparr>occ_file = asc ''app/cart/page.tsx'', occ_line = 2, isClient = True, isServerFile = False\<rparr>
          whyClientSecret]"
  unfolding example_scan by code_simp

lemma riskChecksFor_keys:
  "riskChecksFor ms (key, locs) = Inr rs \<Longrightarrow> r \<in> set rs \<Longrightarrow> risk_key r = key \<and> key \<notin> set ms"
  by (auto simp: riskChecksFor_def appendE_Inr riskSecretExposed_def riskPublicSensitive_def
       riskClientSecret_def riskPublicServerOnly_def finding_def Let_def
       split: option.splits if_splits sum.splits)

lemma riskChecksFor_missing:
  "key \<in> set ms \<Longrightarrow> riskChecksFor ms (key, locs) = Inr []"
  by (simp add: riskChecksFor_def appendE_def riskSecretExposed_def riskPublicSensitive_def
       riskClientSecret_def riskPublicServerOnly_def)

lemma riskChecks_keys:
  "riskChecks ms used = Inr rs \<Longrightarrow> r \<in> set rs \<Longrightarrow> risk_key r \<notin> set ms \<and> risk_key r \<in> fst ` set used"
proof (induction used arbitrary: rs)
  case Nil
  then show ?case by simp
next
  case (Cons entry used)
  obtain key locs where e: "entry = (key, locs)" by (cases entry)
  from Cons.prems(1) obtain xs ys where
    xs: "riskChecksFor ms (key, locs) = Inr xs" and ys: "riskChecks ms used = Inr ys"
    and rs: "rs = xs @ ys"
    by (auto simp: e appendE_Inr)
  from Cons.prems(2) rs consider "r \<in> set xs" | "r \<in> set ys" by auto
  then show ?case
  proof cases
    case 1
    with riskChecksFor_keys [OF xs] show ?thesis by (simp add: e)
  next
    case 2
    with Cons.IH [OF ys] show ?thesis by simp
  qed
qed

text \<open>
  Claim C1. In every run that ends well, no variable name of the \<open>missing\<close> list
  is the key of a finding: every finding's key is outside the list, and for a key of
  the list each of the four rules emits nothing.
\<close>

theorem suppression_invariant:
  assumes "main inp = Inr out"
  shows "(\<forall>r \<in> set (risky (reportJson out)). risk_key r \<notin> set (missing (reportJson out))) \<and>
         (\<forall>key locations. key \<in> set (missing (reportJson out)) \<longrightarrow>
            riskChecksFor (missing (reportJson out)) (key, locations) = Inr [])"
proof -
  from assms obtain providedKeys risky0 where
    r: "riskChecks (newSet (missingOf (map fst (scanFiles (files inp))) providedKeys))
          (scanFiles (files inp)) = Inr risky0"
    and j: "risky (reportJson out) = risky0"
           "missing (reportJson out) = sort (missingOf (map fst (scanFiles (files inp))) providedKeys)"
    by (rule main_Inr) simp
  show ?thesis
    using riskChecks_keys [OF r] by (auto simp: j set_newSet riskChecksFor_missing)
qed

text \<open>
  The example run: \<^verbatim>\<open>OTHER\<close> is missing, both findings are about \<^verbatim>\<open>API_KEY\<close>.
\<close>

theorem suppression_invariant_witness:
  "\<exists>out. main exampleRun = Inr out \<and>
         missing (reportJson out) = [asc ''OTHER''] \<and>
         map risk_key (risky (reportJson out)) = [asc ''API_KEY'', asc ''API_KEY''] \<and>
         list_all (\<lambda>r. risk_key r \<notin> set (missing (reportJson out))) (risky (reportJson out))"
proof -
  have "envFile exampleRun \<noteq> EnvUnreadable" by (simp add: exampleRun_def)
  then obtain out where out: "main exampleRun = Inr out"
    using main_total by blast
  from out obtain risky0 where
    r: "riskChecks (newSet (missingOf (map fst (scanFiles (files exampleRun))) [asc ''API_KEY'', asc ''DB_URL'']))
          (scanFiles (files exampleRun)) = Inr risky0"
    and j: "risky (reportJson out) = risky0"
           "missing (reportJson out) = sort (missingOf (map fst (scanFiles (files exampleRun))) [asc ''API_KEY'', asc ''DB_URL''])"
    by (rule main_Inr) (simp add: example_env)
  have m: "missing (reportJson out) = [asc ''OTHER'']"
    by (simp only: j example_missing)
  have k: "map risk_key (risky (reportJson out)) = [asc ''API_KEY'', asc ''API_KEY'']"
    using r by (auto simp: j example_risky finding_def)
  from suppression_invariant [OF out]
  have l: "list_all (\<lambda>r. risk_key r \<notin> set (missing (reportJson out))) (risky (reportJson out))"
    by (simp add: list_all_iff)
  show ?thesis
    by (rule exI [of _ out]) (intro conjI out m k l)
qed

text \<open>
  Claim C2. In every run that ends well, with \<open>D\<close> the declared keys and the keys of
  the usage index as the used keys: when \<open>D\<close> is not empty, \<open>missing\<close> is exactly
  the used keys outside \<open>D\<close> and \<open>unused\<close> exactly the keys of \<open>D\<close> that are not
  used; when \<open>D\<close> is empty both lists are empty.
\<close>

theorem reconciliation_sets:
  assumes "main inp = Inr out"
    and "readProvidedKeys (envFile inp) = Inr D"
  shows "(set D \<noteq> {} \<longrightarrow>
            set (missing (reportJson out)) = fst ` set (scanFiles (files inp)) - set D \<and>
            set (unused (reportJson out)) = set D - fst ` set (scanFiles (files inp))) \<and>
         (set D = {} \<longrightarrow> missing (reportJson out) = [] \<and> unused (reportJson out) = [])"
proof -
  from assms have
    j: "missing (reportJson out) = sort (missingOf (map fst (scanFiles (files inp))) D)"
       "unused (reportJson out) = sort (unusedOf (map fst (scanFiles (files inp))) D)"
    by (auto elim!: main_Inr)
  show ?thesis
    unfolding j by (auto simp: missingOf_def unusedOf_def)
qed

text \<open>The example run, where \<open>D\<close> holds two keys.\<close>

theorem reconciliation_sets_witness:
  "\<exists>out. main exampleRun = Inr out \<and>
         readProvidedKeys (envFile exampleRun) = Inr [asc ''API_KEY'', asc ''DB_URL''] \<and>
         map fst (scanFiles (files exampleRun)) = [asc ''API_KEY'', asc ''OTHER''] \<and>
         set (missing (reportJson out)) =
           set [asc ''API_KEY'', asc ''OTHER''] - set [asc ''API_KEY'', asc ''DB_URL''] \<and>
         set (unused (reportJson out)) =
           set [asc ''API_KEY'', asc ''DB_URL''] - set [asc ''API_KEY'', asc ''OTHER'']"
proof -
  have "envFile exampleRun \<noteq> EnvUnreadable" by (simp add: exampleRun_def)
  then obtain out where out: "main exampleRun = Inr out"
    using main_total by blast
  have u: "map fst (scanFiles (files exampleRun)) = [asc ''API_KEY'', asc ''OTHER'']"
    by (simp add: example_scan)
  have "fst ` set (scanFiles (files exampleRun)) = set [asc ''API_KEY'', asc ''OTHER'']"
    using u by (metis set_map)
  with reconciliation_sets [OF out example_env]
  have "set (missing (reportJson out)) =
           set [asc ''API_KEY'', asc ''OTHER''] - set [asc ''API_KEY'', asc ''DB_URL'']"
       "set (unused (reportJson out)) =
           set [asc ''API_KEY'', asc ''DB_URL''] - set [asc ''API_KEY'', asc ''OTHER'']"
    by simp_all
  then show ?thesis
    by (intro exI [of _ out] conjI out example_env u)
qed

lemma scanStep_unreadable: "scanStep used (relFile, None) = used"
  by (simp add: scanStep_def)

lemma foldl_scanStep_readable:
  "foldl scanStep used fs = foldl scanStep used (filter (\<lambda>f. snd f \<noteq> None) fs)"
proof (induction fs arbitrary: used)
  case Nil
  show ?case by simp
next
  case (Cons f fs)
  obtain relFile content where f: "f = (relFile, content)" by (cases f)
  show ?case
    by (cases content) (simp_all add: f Cons.IH scanStep_unreadable)
qed

text \<open>
  Claim C10. A file whose read fails leaves the usage index as it was, so the index of
  a run is the index of its readable files alone; \<open>filesScanned\<close> is the number of
  enumerated files, readable or not.
\<close>

theorem unreadable_file_counted:
  assumes "main inp = Inr out"
  shows "filesScanned (totals (reportJson out)) = length (files inp) \<and>
         scanFiles (files inp) = scanFiles (filter (\<lambda>f. snd f \<noteq> None) (files inp)) \<and>
         locationsByEnvVar (reportJson out) =
           map_of (scanFiles (filter (\<lambda>f. snd f \<noteq> None) (files inp)))"
proof -
  have s: "scanFiles (files inp) = scanFiles (filter (\<lambda>f. snd f \<noteq> None) (files inp))"
    unfolding scanFiles_def by (rule foldl_scanStep_readable)
  from assms have "filesScanned (totals (reportJson out)) = length (files inp)"
    and "locationsByEnvVar (reportJson out) = map_of (scanFiles (files inp))"
    by (auto elim!: main_Inr)
  with s show ?thesis by simp
qed

text \<open>The example run: two files enumerated, one of them read.\<close>

theorem unreadable_file_counted_witness:
  "\<exists>out. main exampleRun = Inr out \<and>
         filter (\<lambda>f. snd f \<noteq> None) (files exampleRun) = [(asc ''app/cart/page.tsx'', Some clientPage)] \<and>
         filesScanned (totals (reportJson out)) = 2 \<and>
         scanFiles (files exampleRun) = scanFiles [(asc ''app/cart/page.tsx'', Some clientPage)]"
proof -
  have "envFile exampleRun \<noteq> EnvUnreadable" by (simp add: exampleRun_def)
  then obtain out where out: "main exampleRun = Inr out"
    using main_total by blast
  have f: "filter (\<lambda>f. snd f \<noteq> None) (files exampleRun) = [(asc ''app/cart/page.tsx'', Some clientPage)]"
    by (simp add: exampleRun_def)
  have n: "length (files exampleRun) = 2"
    by (simp add: exampleRun_def)
  from unreadable_file_counted [OF out]
  have "filesScanned (totals (reportJson out)) = 2"
    and "scanFiles (files exampleRun) = scanFiles [(asc ''app/cart/page.tsx'', Some clientPage)]"
    by (simp_all only: f n)
  then show ?thesis
    by (intro exI [of _ out] conjI out f)
qed

lemma splitStr_line:
  "c \<notin> set l \<Longrightarrow> splitStr (l @ c # rest) c = l # splitStr rest c"
  by (induction l) auto

lemma join_lines:
  "ls \<noteq> [] \<Longrightarrow> join ls [c] @ [c] = concat (map (\<lambda>l. l @ [c]) ls)"
  by (induction ls "[c]" rule: join.induct) auto

lemma splitStr_lines:
  "\<forall>l \<in> set ls. c \<notin> set l \<Longrightarrow> splitStr (concat (map (\<lambda>l. l @ [c]) ls)) c = ls @ [[]]"
  by (induction ls) (auto simp: splitStr_line)

lemma trim_id:
  assumes "s \<noteq> []" and "\<not> isWhiteSpace (hd s)" and "\<not> isWhiteSpace (last s)"
  shows "trim s = s"
proof -
  from assms have "dropWhile isWhiteSpace s = s"
    by (simp add: dropWhile_eq_self_iff)
  moreover from assms have "dropWhile isWhiteSpace (rev s) = rev s"
    by (simp add: dropWhile_eq_self_iff hd_rev)
  ultimately show ?thesis by (simp add: trim_def)
qed

lemma trim_Nil: "trim [] = []"
  by (simp add: trim_def)

lemma declaredKey_Nil: "declaredKey [] = None"
  by (simp add: declaredKey_def declaredKey_spec_def trim_Nil)

lemma trim_name: "isVariableName k \<Longrightarrow> trim k = k"
proof -
  assume k: "isVariableName k"
  then have "k \<noteq> []" "isKeyChar (hd k)" "isKeyChar (last k)"
    by (auto simp: isVariableName_def list_all_iff)
  then show ?thesis
    using isKeyChar_not_special by (intro trim_id) auto
qed

lemma declaredKey_template_line:
  assumes "isVariableName k"
  shows "declaredKey (k @ asc ''='') = Some k"
proof -
  from assms have ne: "k \<noteq> []" and kc: "\<forall>c \<in> set k. isKeyChar c"
    by (auto simp: isVariableName_def list_all_iff)
  have eq: "asc ''='' = [0x3D]" by (simp add: asc_def)
  have "\<not> isWhiteSpace (hd (k @ [0x3D]))"
    using ne kc isKeyChar_not_special [of "hd k"] by simp
  moreover have "\<not> isWhiteSpace (last (k @ [0x3D]))"
    by (simp add: isWhiteSpace_def)
  ultimately have t: "trim (k @ [0x3D]) = k @ [0x3D]"
    by (intro trim_id) auto
  have h: "\<not> startsWith (k @ [0x3D]) (asc ''#'')"
    using ne kc isKeyChar_not_special [of "hd k"]
    by (cases k) (auto simp: startsWith_def asc_def)
  have "0x3D \<notin> set k"
    using kc isKeyChar_not_special by blast
  then have tw: "takeWhile (\<lambda>c. c \<noteq> 0x3D) (k @ [0x3D]) = k"
    by (induction k) auto
  show ?thesis
    using ne by (simp add: declaredKey_def declaredKey_spec_def eq t h tw trim_name [OF assms])
qed

lemma map_filter_template:
  "\<forall>k \<in> set ks. isVariableName k \<Longrightarrow>
   List.map_filter declaredKey (map (\<lambda>k. k @ asc ''='') ks) = ks"
  by (induction ks) (auto simp: map_filter_simps declaredKey_template_line)

lemma parseEnvKeys_template:
  assumes "\<forall>k \<in> set ks. isVariableName k"
  shows "set (parseEnvKeys (join (map (\<lambda>k. k @ asc ''='') ks) [newline] @ [newline])) = set ks"
proof (cases "ks = []")
  case True
  have t: "join (map (\<lambda>k. k @ asc ''='') ks) [newline] @ [newline] = [newline]"
    by (simp add: True)
  have s: "splitStr [newline] newline = [[], []]" by simp
  have "set (foldl parseEnvLine [] [[], []]) = {}"
    unfolding foldl_parseEnvLine_set by (simp add: map_filter_simps declaredKey_Nil)
  then show ?thesis
    unfolding parseEnvKeys_def t s by (simp only: True list.set)
next
  case False
  have nl: "\<forall>l \<in> set (map (\<lambda>k. k @ asc ''='') ks). newline \<notin> set l"
  proof
    fix l assume "l \<in> set (map (\<lambda>k. k @ asc ''='') ks)"
    then obtain k where k: "k \<in> set ks" and l: "l = k @ asc ''=''" by auto
    from k assms have "\<forall>c \<in> set k. isKeyChar c"
      by (auto simp: isVariableName_def list_all_iff)
    then have "newline \<notin> set k" using isKeyChar_not_special by blast
    then show "newline \<notin> set l" by (simp add: l asc_def newline_def)
  qed
  from False have "join (map (\<lambda>k. k @ asc ''='') ks) [newline] @ [newline] =
      concat (map (\<lambda>l. l @ [newline]) (map (\<lambda>k. k @ asc ''='') ks))"
    by (intro join_lines) simp
  then have sp: "splitStr (join (map (\<lambda>k. k @ asc ''='') ks) [newline] @ [newline]) newline =
      map (\<lambda>k. k @ asc ''='') ks @ [[]]"
    using splitStr_lines [OF nl] by simp
  have mf: "List.map_filter declaredKey (map (\<lambda>k. k @ asc ''='') ks @ [[]]) = ks"
    using map_filter_template [OF assms] by (simp add: List.map_filter_def declaredKey_Nil)
  show ?thesis
    unfolding parseEnvKeys_def sp foldl_parseEnvLine_set mf by simp
qed

lemma names_scanFiles: "\<forall>k \<in> set (map fst (scanFiles fs)). isVariableName k"
  using wellFormed_scanFiles [of fs] by (simp add: wellFormed_iff)

lemma missingOf_declared:
  "set usedKeys \<subseteq> set providedKeys \<Longrightarrow> missingOf usedKeys providedKeys = []"
  by (auto simp: missingOf_def filter_empty_conv)

text \<open>
  Claim C3. Feeding the declarations template a run generated back as the env list,
  with the same target and files, gives a run that ends well with an empty
  \<open>missing\<close> list.
\<close>

theorem template_round_trip:
  assumes "main inp = Inr out"
  shows "\<exists>out'. main (inp\<lparr>envFile := EnvText (envExample out)\<rparr>) = Inr out' \<and>
               missing (reportJson out') = []"
proof -
  let ?U = "map fst (scanFiles (files inp))"
  let ?inp' = "inp\<lparr>envFile := EnvText (envExample out)\<rparr>"
  from assms have e: "envExample out = exampleLines ?U @ [newline]"
    by (auto elim!: main_Inr)
  have "\<forall>k \<in> set (sort ?U). isVariableName k"
    using names_scanFiles [of "files inp"] by simp
  then have p: "set (parseEnvKeys (envExample out)) = set ?U"
    unfolding e exampleLines_def using parseEnvKeys_template [of "sort ?U"] by simp
  have "envFile ?inp' \<noteq> EnvUnreadable" by simp
  then obtain out' where out': "main ?inp' = Inr out'"
    using main_total by blast
  then have "missing (reportJson out') = sort (missingOf ?U (parseEnvKeys (envExample out)))"
    by (rule main_Inr) (simp add: readProvidedKeys_def)
  then have "missing (reportJson out') = []"
    by (simp add: missingOf_declared p)
  with out' show ?thesis by blast
qed

lemma example_template:
  "exampleLines (map fst (scanFiles (files exampleRun))) @ [newline] =
   asc ''API_KEY=\<newline>OTHER=\<newline>''"
  unfolding example_scan by code_simp

text \<open>The example run and its template of two lines.\<close>

theorem template_round_trip_witness:
  "\<exists>out out'. main exampleRun = Inr out \<and>
     envExample out = asc ''API_KEY=\<newline>OTHER=\<newline>'' \<and>
     main (exampleRun\<lparr>envFile := EnvText (asc ''API_KEY=\<newline>OTHER=\<newline>'')\<rparr>) = Inr out' \<and>
     missing (reportJson out') = []"
proof -
  have "envFile exampleRun \<noteq> EnvUnreadable" by (simp add: exampleRun_def)
  then obtain out where out: "main exampleRun = Inr out"
    using main_total by blast
  from out have e: "envExample out = asc ''API_KEY=\<newline>OTHER=\<newline>''"
    by (rule main_Inr) (simp only: example_template)
  from template_round_trip [OF out] obtain out' where
    "main (exampleRun\<lparr>envFile := EnvText (envExample out)\<rparr>) = Inr out'"
    "missing (reportJson out') = []"
    by blast
  then show ?thesis
    unfolding e using out e by blast
qed

lemma main_fields:
  assumes "main inp = Inr out" and "readProvidedKeys (envFile inp) = Inr providedKeys"
  shows "missing (reportJson out) = sort (missingOf (map fst (scanFiles (files inp))) providedKeys)"
    and "unused (reportJson out) = sort (unusedOf (map fst (scanFiles (files inp))) providedKeys)"
    and "riskChecks (newSet (missingOf (map fst (scanFiles (files inp))) providedKeys))
           (scanFiles (files inp)) = Inr (risky (reportJson out))"
  using assms by (auto elim!: main_Inr)

lemma scanFiles_single:
  "scanFiles [(relFile, Some text)] =
     foldl (recordMatch relFile text (isClientText text) (isServerPath relFile))
       (foldl (recordMatch relFile text (isClientText text) (isServerPath relFile)) []
          (matchAll reDot 0 text))
       (matchAll reBracket 0 text)"
  by (simp add: scanFiles_def scanStep_def scanFile_def Let_def)

lemma recordMatch_first:
  "recordMatch relFile text isC isS [] (idx, key) =
     [(key, [\<lparr>occ_file = relFile, occ_line = getLineNumber text idx, isClient = isC, isServerFile = isS\<rparr>])]"
  by (simp add: recordMatch_def has_def Let_def)

lemma no_env_lists:
  "readProvidedKeys NoEnvFile = Inr []" "missingOf usedKeys [] = []" "unusedOf usedKeys [] = []"
  "newSet [] = []"
  by (simp_all add: readProvidedKeys_def missingOf_def unusedOf_def newSet_def)

lemma dashboard_path:
  "\<not> isServerPath (asc ''app/dashboard/page.tsx'')"
  "isLikelyClientExposedPath (asc ''app/dashboard/page.tsx'')"
  by code_simp+

lemma stripe_name:
  "looksSensitiveName (asc ''STRIPE_SECRET_KEY'')"
  "\<not> isPublicName (asc ''STRIPE_SECRET_KEY'')"
  by code_simp+

text \<open>
  Claim C4. One scanned file at \<^verbatim>\<open>app/dashboard/page.tsx\<close> whose text holds the
  client directive and whose only match is the dot pattern on
  \<^verbatim>\<open>STRIPE_SECRET_KEY\<close>, with no env list: the run ends well, the usage index holds
  exactly one occurrence, flagged as in a client file, \<open>missing\<close> and \<open>unused\<close>
  are empty, and the findings are the sensitive name in an exposed path and the
  non-public secret in a client file, both about that key.
\<close>

theorem client_secret_scenario:
  assumes "isClientText text"
    and "matchAll reDot 0 text = [(i, asc ''STRIPE_SECRET_KEY'')]"
    and "matchAll reBracket 0 text = []"
    and "ex = \<lparr>occ_file = asc ''app/dashboard/page.tsx'', occ_line = getLineNumber text i,
                isClient = True, isServerFile = False\<rparr>"
  shows "\<exists>out. main (dashboardRun target text) = Inr out \<and>
           scanFiles (files (dashboardRun target text)) = [(asc ''STRIPE_SECRET_KEY'', [ex])] \<and>
           missing (reportJson out) = [] \<and> unused (reportJson out) = [] \<and>
           risky (reportJson out) =
             [finding typeSecretExposed (asc ''STRIPE_SECRET_KEY'') ex whySecretExposed,
              finding typeClientSecret (asc ''STRIPE_SECRET_KEY'') ex whyClientSecret]"
proof -
  have s: "scanFiles (files (dashboardRun target text)) = [(asc ''STRIPE_SECRET_KEY'', [ex])]"
    by (simp add: dashboardRun_def scanFiles_single assms recordMatch_first dashboard_path)
  have r: "riskChecks [] [(asc ''STRIPE_SECRET_KEY'', [ex])] =
      Inr [finding typeSecretExposed (asc ''STRIPE_SECRET_KEY'') ex whySecretExposed,
           finding typeClientSecret (asc ''STRIPE_SECRET_KEY'') ex whyClientSecret]"
    by (simp add: riskChecksFor_def appendE_def riskSecretExposed_def riskPublicSensitive_def
        riskClientSecret_def riskPublicServerOnly_def stripe_name dashboard_path assms(4))
  have e: "envFile (dashboardRun target text) = NoEnvFile"
    by (simp add: dashboardRun_def)
  have "envFile (dashboardRun target text) \<noteq> EnvUnreadable"
    by (simp add: e)
  then obtain out where out: "main (dashboardRun target text) = Inr out"
    using main_total by blast
  have p: "readProvidedKeys (envFile (dashboardRun target text)) = Inr []"
    by (simp add: e no_env_lists)
  have "missing (reportJson out) = []" "unused (reportJson out) = []"
    using main_fields(1,2) [OF out p] by (simp_all add: no_env_lists)
  moreover have "riskChecks [] [(asc ''STRIPE_SECRET_KEY'', [ex])] = Inr (risky (reportJson out))"
    using main_fields(3) [OF out p] by (simp only: s no_env_lists)
  then have "risky (reportJson out) =
        [finding typeSecretExposed (asc ''STRIPE_SECRET_KEY'') ex whySecretExposed,
         finding typeClientSecret (asc ''STRIPE_SECRET_KEY'') ex whyClientSecret]"
    by (simp only: r sum.inject)
  ultimately show ?thesis using out s by blast
qed

lemma dashboard_matches:
  "isClientText dashboardPage"
  "matchAll reDot 0 dashboardPage = [(44, asc ''STRIPE_SECRET_KEY'')]"
  "matchAll reBracket 0 dashboardPage = []"
  "getLineNumber dashboardPage 44 = 2"
  by code_simp+

text \<open>A text of that kind, with the reference on its second line.\<close>

theorem client_secret_scenario_witness:
  "isClientText dashboardPage \<and>
   matchAll reDot 0 dashboardPage = [(44, asc ''STRIPE_SECRET_KEY'')] \<and>
   matchAll reBracket 0 dashboardPage = [] \<and>
   (\<exists>out. main (dashboardRun (asc ''/srv/shop'') dashboardPage) = Inr out \<and>
      scanFiles (files (dashboardRun (asc ''/srv/shop'') dashboardPage)) =
        [(asc ''STRIPE_SECRET_KEY'',
          [\<lparr>occ_file = asc ''app/dashboard/page.tsx'', occ_line = 2, isClient = True,
            isServerFile = False\<rparr>])] \<and>
      missing (reportJson out) = [] \<and> unused (reportJson out) = [] \<and>
      map risk_type (risky (reportJson out)) = [typeSecretExposed, typeClientSecret])"
  using client_secret_scenario [OF dashboard_matches(1,2,3) refl, of "asc ''/srv/shop''"]
  by (auto simp: dashboard_matches finding_def)

lemma type_distinct:
  "typePublicServerOnly \<noteq> typeSecretExposed"
  "typePublicServerOnly \<noteq> typePublicSensitive"
  "typePublicServerOnly \<noteq> typeClientSecret"
  by (simp_all add: typePublicServerOnly_def typeSecretExposed_def typePublicSensitive_def
      typeClientSecret_def asc_def)

lemma riskChecks_mem:
  "riskChecks ms used = Inr rs \<Longrightarrow>
   r \<in> set rs \<longleftrightarrow> (\<exists>entry \<in> set used. \<exists>xs. riskChecksFor ms entry = Inr xs \<and> r \<in> set xs)"
proof (induction used arbitrary: rs)
  case Nil
  then show ?case by simp
next
  case (Cons entry used)
  from Cons.prems obtain xs ys where
    xs: "riskChecksFor ms entry = Inr xs" and ys: "riskChecks ms used = Inr ys"
    and rs: "rs = xs @ ys"
    by (auto simp: appendE_Inr)
  show ?case
    using Cons.IH [OF ys] xs by (auto simp: rs)
qed

lemma riskChecksFor_serverOnly:
  assumes "riskChecksFor ms (key, locs) = Inr xs"
  shows "(\<exists>r \<in> set xs. risk_type r = typePublicServerOnly) \<longleftrightarrow>
           key \<notin> set ms \<and> isPublicName key \<and> list_all isServerFile locs"
    and "\<forall>r \<in> set xs. risk_type r = typePublicServerOnly \<longrightarrow>
           locs \<noteq> [] \<and> risk_key r = key \<and> risk_file r = occ_file (hd locs) \<and>
           risk_line r = occ_line (hd locs) \<and> risk_why r = whyPublicServerOnly"
  using assms type_distinct
  by (auto simp: riskChecksFor_def appendE_Inr riskSecretExposed_def riskPublicSensitive_def
       riskClientSecret_def riskPublicServerOnly_def finding_def firstLocation_def Let_def
       split: option.splits if_splits sum.splits list.splits)

lemma riskChecks_entry:
  "riskChecks ms used = Inr rs \<Longrightarrow> entry \<in> set used \<Longrightarrow> \<exists>xs. riskChecksFor ms entry = Inr xs"
  by (induction used arbitrary: rs) (auto simp: appendE_Inr)

lemma serverOnly_iff:
  assumes rc: "riskChecks ms used = Inr rs"
    and d: "distinct (map fst used)"
    and e: "(K, locs) \<in> set used"
    and m: "K \<notin> set ms"
  shows "(\<exists>r \<in> set rs. risk_type r = typePublicServerOnly \<and> risk_key r = K) \<longleftrightarrow>
           isPublicName K \<and> list_all isServerFile locs"
    and "\<forall>r \<in> set rs. risk_type r = typePublicServerOnly \<and> risk_key r = K \<longrightarrow>
           locs \<noteq> [] \<and> risk_file r = occ_file (hd locs) \<and> risk_line r = occ_line (hd locs)"
proof -
  have cite: "locs' = locs \<and> locs \<noteq> [] \<and> risk_file r = occ_file (hd locs) \<and>
      risk_line r = occ_line (hd locs) \<and> isPublicName K \<and> list_all isServerFile locs"
    if r: "r \<in> set rs" "risk_type r = typePublicServerOnly" "risk_key r = K"
      and en: "(k', locs') \<in> set used" "riskChecksFor ms (k', locs') = Inr xs" "r \<in> set xs"
    for r k' locs' xs
  proof -
    from riskChecksFor_serverOnly(2) [OF en(2)] en(3) r(2)
    have c: "locs' \<noteq> []" "risk_key r = k'" "risk_file r = occ_file (hd locs')"
      "risk_line r = occ_line (hd locs')"
      by auto
    with r(3) have "k' = K" by simp
    with en(1) e d have l: "locs' = locs"
      by (meson eq_key_imp_eq_value)
    from riskChecksFor_serverOnly(1) [OF en(2)] en(3) r(2) \<open>k' = K\<close> l
    have "isPublicName K \<and> list_all isServerFile locs" by auto
    with c l show ?thesis by simp
  qed
  show "(\<exists>r \<in> set rs. risk_type r = typePublicServerOnly \<and> risk_key r = K) \<longleftrightarrow>
           isPublicName K \<and> list_all isServerFile locs"
  proof
    assume "\<exists>r \<in> set rs. risk_type r = typePublicServerOnly \<and> risk_key r = K"
    then obtain r where r: "r \<in> set rs" "risk_type r = typePublicServerOnly" "risk_key r = K"
      by blast
    from r(1) riskChecks_mem [OF rc, of r] obtain k' locs' xs where
      "(k', locs') \<in> set used" "riskChecksFor ms (k', locs') = Inr xs" "r \<in> set xs"
      by auto
    from cite [OF r this] show "isPublicName K \<and> list_all isServerFile locs" by simp
  next
    assume a: "isPublicName K \<and> list_all isServerFile locs"
    from riskChecks_entry [OF rc e] obtain xs where xs: "riskChecksFor ms (K, locs) = Inr xs"
      by blast
    from riskChecksFor_serverOnly(1) [OF xs] a m obtain r where
      r: "r \<in> set xs" "risk_type r = typePublicServerOnly"
      by blast
    with riskChecksFor_serverOnly(2) [OF xs] have "risk_key r = K" by blast
    moreover from r(1) xs e have "r \<in> set rs"
      using riskChecks_mem [OF rc, of r] by blast
    ultimately show "\<exists>r \<in> set rs. risk_type r = typePublicServerOnly \<and> risk_key r = K"
      using r(2) by blast
  qed
  show "\<forall>r \<in> set rs. risk_type r = typePublicServerOnly \<and> risk_key r = K \<longrightarrow>
           locs \<noteq> [] \<and> risk_file r = occ_file (hd locs) \<and> risk_line r = occ_line (hd locs)"
  proof (intro ballI impI)
    fix r assume r: "r \<in> set rs" and t: "risk_type r = typePublicServerOnly \<and> risk_key r = K"
    from r riskChecks_mem [OF rc, of r] obtain k' locs' xs where
      "(k', locs') \<in> set used" "riskChecksFor ms (k', locs') = Inr xs" "r \<in> set xs"
      by auto
    from cite [OF r conjunct1 [OF t] conjunct2 [OF t] this]
    show "locs \<noteq> [] \<and> risk_file r = occ_file (hd locs) \<and> risk_line r = occ_line (hd locs)"
      by simp
  qed
qed

lemma route_path:
  "isServerPath (asc ''src/app/api/users/route.ts'')"
  by code_simp

lemma api_base_name:
  "\<not> looksSensitiveName (asc ''NEXT_PUBLIC_API_BASE'')"
  "isPublicName (asc ''NEXT_PUBLIC_API_BASE'')"
  by code_simp+

text \<open>
  Claim C5. In a run that ends well, for a key of the usage index that is not in the
  \<open>missing\<close> list, a finding of the rule "public name only in server routes" about
  that key is emitted exactly when the key has the public prefix and every occurrence
  recorded for it is in a server-route file, and such a finding cites the file and
  line of the key's first occurrence. And in the scenario of one file at
  \<^verbatim>\<open>src/app/api/users/route.ts\<close> whose only match is the bracket pattern on
  \<^verbatim>\<open>NEXT_PUBLIC_API_BASE\<close>, with no env list, that finding is the only one: the rule
  of the sensitive name in an exposed path emits nothing.
\<close>

theorem public_name_only_in_server_routes:
  "(main inp = Inr out \<and> (K, locs) \<in> set (scanFiles (files inp)) \<and>
    K \<notin> set (missing (reportJson out)) \<longrightarrow>
      ((\<exists>r \<in> set (risky (reportJson out)). risk_type r = typePublicServerOnly \<and> risk_key r = K)
         \<longleftrightarrow> isPublicName K \<and> list_all isServerFile locs) \<and>
      (\<forall>r \<in> set (risky (reportJson out)).
         risk_type r = typePublicServerOnly \<and> risk_key r = K \<longrightarrow>
           locs \<noteq> [] \<and> risk_file r = occ_file (hd locs) \<and> risk_line r = occ_line (hd locs))) \<and>
   (matchAll reDot 0 text = [] \<and>
    matchAll reBracket 0 text = [(i, asc ''NEXT_PUBLIC_API_BASE'')] \<and>
    ex = \<lparr>occ_file = asc ''src/app/api/users/route.ts'', occ_line = getLineNumber text i,
           isClient = isClientText text, isServerFile = True\<rparr> \<longrightarrow>
      (\<exists>out'. main (routeRun target text) = Inr out' \<and>
         scanFiles (files (routeRun target text)) = [(asc ''NEXT_PUBLIC_API_BASE'', [ex])] \<and>
         risky (reportJson out') =
           [finding typePublicServerOnly (asc ''NEXT_PUBLIC_API_BASE'') ex whyPublicServerOnly]))"
proof (intro conjI impI)
  assume a: "main inp = Inr out \<and> (K, locs) \<in> set (scanFiles (files inp)) \<and>
    K \<notin> set (missing (reportJson out))"
  from a obtain providedKeys where p: "readProvidedKeys (envFile inp) = Inr providedKeys"
    by (auto elim!: main_Inr)
  let ?ms = "newSet (missingOf (map fst (scanFiles (files inp))) providedKeys)"
  from a have out: "main inp = Inr out" by simp
  have rc: "riskChecks ?ms (scanFiles (files inp)) = Inr (risky (reportJson out))"
    by (rule main_fields(3) [OF out p])
  have m: "K \<notin> set ?ms"
    using a main_fields(1) [OF out p] by (simp add: set_newSet)
  have d: "distinct (map fst (scanFiles (files inp)))"
    using wellFormed_scanFiles [of "files inp"] by (simp add: wellFormed_def)
  from a have e: "(K, locs) \<in> set (scanFiles (files inp))" by simp
  show "(\<exists>r \<in> set (risky (reportJson out)). risk_type r = typePublicServerOnly \<and> risk_key r = K)
         \<longleftrightarrow> isPublicName K \<and> list_all isServerFile locs"
    by (rule serverOnly_iff(1) [OF rc d e m])
  show "\<forall>r \<in> set (risky (reportJson out)).
         risk_type r = typePublicServerOnly \<and> risk_key r = K \<longrightarrow>
           locs \<noteq> [] \<and> risk_file r = occ_file (hd locs) \<and> risk_line r = occ_line (hd locs)"
    by (rule serverOnly_iff(2) [OF rc d e m])
next
  assume a: "matchAll reDot 0 text = [] \<and>
    matchAll reBracket 0 text = [(i, asc ''NEXT_PUBLIC_API_BASE'')] \<and>
    ex = \<lparr>occ_file = asc ''src/app/api/users/route.ts'', occ_line = getLineNumber text i,
           isClient = isClientText text, isServerFile = True\<rparr>"
  have s: "scanFiles (files (routeRun target text)) = [(asc ''NEXT_PUBLIC_API_BASE'', [ex])]"
    using a by (simp add: routeRun_def scanFiles_single recordMatch_first route_path)
  have r: "riskChecks [] [(asc ''NEXT_PUBLIC_API_BASE'', [ex])] =
      Inr [finding typePublicServerOnly (asc ''NEXT_PUBLIC_API_BASE'') ex whyPublicServerOnly]"
    using a
    by (simp add: riskChecksFor_def appendE_def riskSecretExposed_def riskPublicSensitive_def
        riskClientSecret_def riskPublicServerOnly_def api_base_name firstLocation_def)
  have e: "envFile (routeRun target text) = NoEnvFile"
    by (simp add: routeRun_def)
  have "envFile (routeRun target text) \<noteq> EnvUnreadable"
    by (simp add: e)
  then obtain out' where out': "main (routeRun target text) = Inr out'"
    using main_total by blast
  have p: "readProvidedKeys (envFile (routeRun target text)) = Inr []"
    by (simp add: e no_env_lists)
  have "riskChecks [] [(asc ''NEXT_PUBLIC_API_BASE'', [ex])] = Inr (risky (reportJson out'))"
    using main_fields(3) [OF out' p] by (simp only: s no_env_lists)
  then have "risky (reportJson out') =
      [finding typePublicServerOnly (asc ''NEXT_PUBLIC_API_BASE'') ex whyPublicServerOnly]"
    by (simp only: r sum.inject)
  with out' s show "\<exists>out'. main (routeRun target text) = Inr out' \<and>
         scanFiles (files (routeRun target text)) = [(asc ''NEXT_PUBLIC_API_BASE'', [ex])] \<and>
         risky (reportJson out') =
           [finding typePublicServerOnly (asc ''NEXT_PUBLIC_API_BASE'') ex whyPublicServerOnly]"
    by blast
qed

lemma route_matches:
  "matchAll reDot 0 usersRoute = []"
  "matchAll reBracket 0 usersRoute = [(45, asc ''NEXT_PUBLIC_API_BASE'')]"
  "getLineNumber usersRoute 45 = 2"
  "isClientText usersRoute = False"
  by code_simp+

text \<open>
  A route handler of that kind: its key is in the usage index, not missing, public and
  used in a server route only, and the finding is emitted for line 2.
\<close>

theorem public_name_only_in_server_routes_witness:
  "matchAll reDot 0 usersRoute = [] \<and>
   matchAll reBracket 0 usersRoute = [(45, asc ''NEXT_PUBLIC_API_BASE'')] \<and>
   isPublicName (asc ''NEXT_PUBLIC_API_BASE'') \<and>
   (\<exists>out. main (routeRun (asc ''/srv/shop'') usersRoute) = Inr out \<and>
      scanFiles (files (routeRun (asc ''/srv/shop'') usersRoute)) =
        [(asc ''NEXT_PUBLIC_API_BASE'',
          [\<lparr>occ_file = asc ''src/app/api/users/route.ts'', occ_line = 2, isClient = False,
            isServerFile = True\<rparr>])] \<and>
      asc ''NEXT_PUBLIC_API_BASE'' \<notin> set (missing (reportJson out)) \<and>
      risky (reportJson out) =
        [\<lparr>risk_type = typePublicServerOnly, risk_key = asc ''NEXT_PUBLIC_API_BASE'',
          risk_file = asc ''src/app/api/users/route.ts'', risk_line = 2,
          risk_why = whyPublicServerOnly\<rparr>] \<and>
      list_ex (\<lambda>r. risk_type r = typePublicServerOnly \<and> risk_key r = asc ''NEXT_PUBLIC_API_BASE'')
        (risky (reportJson out)))"
proof -
  let ?K = "asc ''NEXT_PUBLIC_API_BASE''"
  let ?ex = "\<lparr>occ_file = asc ''src/app/api/users/route.ts'', occ_line = 2, isClient = False,
            isServerFile = True\<rparr>"
  let ?inp = "routeRun (asc ''/srv/shop'') usersRoute"
  have ex: "?ex = \<lparr>occ_file = asc ''src/app/api/users/route.ts'',
      occ_line = getLineNumber usersRoute 45, isClient = isClientText usersRoute,
      isServerFile = True\<rparr>"
    by (simp add: route_matches)
  from public_name_only_in_server_routes [of ?inp _ ?K "[?ex]" usersRoute 45 ?ex "asc ''/srv/shop''"]
    route_matches(1,2) ex
  obtain out where out: "main ?inp = Inr out"
    and s: "scanFiles (files ?inp) = [(?K, [?ex])]"
    and r: "risky (reportJson out) = [finding typePublicServerOnly ?K ?ex whyPublicServerOnly]"
    by blast
  have p: "readProvidedKeys (envFile ?inp) = Inr []"
    by (simp add: routeRun_def no_env_lists)
  have m: "?K \<notin> set (missing (reportJson out))"
    using main_fields(1) [OF out p] by (simp add: no_env_lists)
  from public_name_only_in_server_routes [of ?inp out ?K "[?ex]" usersRoute 45 ?ex "asc ''/srv/shop''"]
    out s m
  have "(\<exists>r \<in> set (risky (reportJson out)). risk_type r = typePublicServerOnly \<and> risk_key r = ?K)
         \<longleftrightarrow> isPublicName ?K \<and> list_all isServerFile [?ex]"
    by simp
  then have l: "list_ex (\<lambda>r. risk_type r = typePublicServerOnly \<and> risk_key r = ?K)
        (risky (reportJson out))"
    by (simp add: api_base_name list_ex_iff)
  have r': "risky (reportJson out) =
        [\<lparr>risk_type = typePublicServerOnly, risk_key = ?K,
          risk_file = asc ''src/app/api/users/route.ts'', risk_line = 2,
          risk_why = whyPublicServerOnly\<rparr>]"
    by (simp add: r finding_def)
  show ?thesis
    by (intro conjI exI [of _ out] route_matches(1,2) api_base_name(2) out s m r' l)
qed

section \<open>Properties of the markup report\<close>

lemma replaceAll_append: "replaceAll (a @ b) c r = replaceAll a c r @ replaceAll b c r"
  by (simp add: replaceAll_def)

lemma replaceAll_Nil: "replaceAll [] c r = []"
  by (simp add: replaceAll_def)

lemma escapeHtml_append: "escapeHtml (a @ b) = escapeHtml a @ escapeHtml b"
  by (simp add: escapeHtml_def replaceAll_append)

lemma escapeHtml_Nil: "escapeHtml [] = []"
  by (simp add: escapeHtml_def replaceAll_Nil)

lemma escapeHtml_unit: "escapeHtml [c] = escapeUnit c"
  by (simp add: escapeHtml_def escapeUnit_def replaceAll_def asc_def)

lemma escapeHtml_Cons: "escapeHtml (c # cs) = escapeUnit c @ escapeHtml cs"
  using escapeHtml_append [of "[c]" cs] by (simp add: escapeHtml_unit)

lemma escapeHtml_concat: "escapeHtml s = concat (map escapeUnit s)"
  by (induction s) (simp_all add: escapeHtml_Nil escapeHtml_Cons)

lemma escapeUnit_markup: "filter isMarkupUnit (escapeUnit c) = []"
  by (simp add: escapeUnit_def isMarkupUnit_def asc_def)

lemma escapeHtml_markup: "filter isMarkupUnit (escapeHtml s) = []"
  by (induction s) (simp_all add: escapeHtml_Nil escapeHtml_Cons escapeUnit_markup)

lemma amps_escapeUnit:
  "ampsBeginEntities (escapeUnit c @ rest) = ampsBeginEntities rest"
  by (simp add: escapeUnit_def entities_def asc_def)

lemma amps_escapeHtml:
  "ampsBeginEntities (escapeHtml s @ rest) = ampsBeginEntities rest"
  by (induction s) (simp_all add: escapeHtml_Nil escapeHtml_Cons amps_escapeUnit)

lemma digit_units: "d < 10 \<Longrightarrow> (0x30 + of_nat d :: 16 word) \<in> {0x30, 0x31, 0x32, 0x33, 0x34, 0x35, 0x36, 0x37, 0x38, 0x39}"
proof -
  assume "d < 10"
  then have "d = 0 \<or> d = 1 \<or> d = 2 \<or> d = 3 \<or> d = 4 \<or> d = 5 \<or> d = 6 \<or> d = 7 \<or> d = 8 \<or> d = 9"
    by arith
  then show ?thesis by (elim disjE) simp_all
qed

lemma numToString_digits:
  "c \<in> set (numToString n) \<Longrightarrow> c \<in> {0x30, 0x31, 0x32, 0x33, 0x34, 0x35, 0x36, 0x37, 0x38, 0x39}"
proof (induction n rule: numToString.induct)
  case (1 n)
  show ?case
  proof (cases "n < 10")
    case True
    with 1(2) digit_units [of n] show ?thesis
      by (simp add: numToString.simps [of n])
  next
    case False
    with 1(2) consider "c \<in> set (numToString (n div 10))" | "c = 0x30 + of_nat (n mod 10)"
      by (auto simp: numToString.simps [of n])
    then show ?thesis
    proof cases
      case 1
      with "1.IH" False show ?thesis by simp
    next
      case 2
      with digit_units [of "n mod 10"] show ?thesis by simp
    qed
  qed
qed

lemma digit_plain:
  "c \<in> {0x30, 0x31, 0x32, 0x33, 0x34, 0x35, 0x36, 0x37, 0x38, 0x39} \<Longrightarrow>
   \<not> isMarkupUnit c \<and> c \<noteq> (0x26 :: 16 word)"
  by (auto simp: isMarkupUnit_def)

lemma numToString_markup: "filter isMarkupUnit (numToString n) = []"
  using numToString_digits [of _ n] digit_plain by (simp add: filter_empty_conv)

lemma numToString_amp: "0x26 \<notin> set (numToString n)"
  using numToString_digits [of "0x26" n] digit_plain by blast

lemma numToString_lt: "0x3C \<notin> set (numToString n)"
  using numToString_markup [of n] by (auto simp: filter_empty_conv isMarkupUnit_def)

lemma of_char_word16_inj: "(of_char a :: 16 word) = of_char b \<longleftrightarrow> a = b"
proof
  assume e: "(of_char a :: 16 word) = of_char b"
  have u: "unat (of_char c :: 16 word) = of_char c" for c
  proof -
    have "(of_char c :: 16 word) = of_nat (of_char c)"
      by (simp add: of_nat_of_char)
    moreover have "(of_char c :: nat) < 2 ^ 16"
    proof -
      have "(of_char c :: nat) < 256" by (rule nat_of_char_less_256)
      also have "(256 :: nat) < 2 ^ 16" by simp
      finally show ?thesis .
    qed
    ultimately show ?thesis
      by (simp add: unat_of_nat take_bit_nat_eq_self)
  qed
  from e have "unat (of_char a :: 16 word) = unat (of_char b :: 16 word)" by simp
  then have "(of_char a :: nat) = of_char b" by (simp only: u)
  then show "a = b" by simp
qed simp

lemma asc_mem: "of_char c \<in> set (asc s) \<longleftrightarrow> c \<in> set s"
  by (auto simp: asc_def of_char_word16_inj)

lemma amp_unit: "(0x26 :: 16 word) = of_char CHR ''&''"
  by simp

lemma amps_noamp: "0x26 \<notin> set l \<Longrightarrow> ampsBeginEntities (l @ rest) = ampsBeginEntities rest"
  by (induction l) auto

lemma amps_literal:
  "CHR ''&'' \<notin> set s \<Longrightarrow> ampsBeginEntities (asc s @ rest) = ampsBeginEntities rest"
  by (rule amps_noamp) (simp only: amp_unit asc_mem, simp)

lemma amps_literal_end: "CHR ''&'' \<notin> set s \<Longrightarrow> ampsBeginEntities (asc s)"
  using amps_literal [of s "[]"] by simp

lemma amps_number: "ampsBeginEntities (numToString n @ rest) = ampsBeginEntities rest"
  by (rule amps_noamp) (rule numToString_amp)

lemma amps_items:
  assumes "\<And>x rest. ampsBeginEntities (f x @ rest) = ampsBeginEntities rest"
    and "ampsBeginEntities (d @ rest) = ampsBeginEntities rest"
  shows "ampsBeginEntities (orElse (concat (map f xs)) d @ rest) = ampsBeginEntities rest"
proof -
  have "ampsBeginEntities (concat (map f xs) @ rest) = ampsBeginEntities rest"
    by (induction xs) (simp_all add: assms(1))
  with assms(2) show ?thesis by (simp add: orElse_def)
qed

lemma amps_missingItem: "ampsBeginEntities (missingItem used k @ rest) = ampsBeginEntities rest"
  by (simp add: missingItem_def amps_literal amps_escapeHtml)

lemma amps_riskyItem: "ampsBeginEntities (riskyItem r @ rest) = ampsBeginEntities rest"
  by (simp add: riskyItem_def amps_literal amps_escapeHtml)

lemma amps_unusedItem: "ampsBeginEntities (unusedItem k @ rest) = ampsBeginEntities rest"
  by (simp add: unusedItem_def amps_literal amps_escapeHtml)

lemma amps_noneItem: "ampsBeginEntities (noneItem @ rest) = ampsBeginEntities rest"
  by (simp add: noneItem_def amps_literal)

lemma amps_renderHtml: "ampsBeginEntities (renderHtml report used)"
  unfolding renderHtml_def Let_def
  by (simp add: amps_literal amps_literal_end amps_escapeHtml amps_number
      amps_items [OF amps_missingItem amps_noneItem] amps_items [OF amps_riskyItem amps_noneItem]
      amps_items [OF amps_unusedItem amps_noneItem])

lemma markup_items:
  assumes "\<And>x. filter isMarkupUnit (f x) = c"
    and "\<And>x. f x \<noteq> []"
  shows "filter isMarkupUnit (orElse (concat (map f xs)) d) =
         (if length xs = 0 then filter isMarkupUnit d else concat (replicate (length xs) c))"
proof -
  have "filter isMarkupUnit (concat (map f xs)) = concat (replicate (length xs) c)"
    by (induction xs) (simp_all add: assms(1))
  moreover have "concat (map f xs) = [] \<longleftrightarrow> xs = []"
    using assms(2) by (cases xs) auto
  ultimately show ?thesis by (simp add: orElse_def)
qed

lemma asc_eq_Nil: "asc s = [] \<longleftrightarrow> s = []"
  by (simp add: asc_def)

lemma markup_missingItem:
  "filter isMarkupUnit (missingItem used k) = filter isMarkupUnit (missingItem [] [])"
  by (simp add: missingItem_def escapeHtml_markup)

lemma markup_riskyItem:
  "filter isMarkupUnit (riskyItem r) = filter isMarkupUnit (riskyItem undefined)"
  by (simp add: riskyItem_def escapeHtml_markup)

lemma markup_unusedItem:
  "filter isMarkupUnit (unusedItem k) = filter isMarkupUnit (unusedItem [])"
  by (simp add: unusedItem_def escapeHtml_markup)

lemma items_nonempty:
  "missingItem used k \<noteq> []" "riskyItem r \<noteq> []" "unusedItem k \<noteq> []"
  by (simp_all add: missingItem_def riskyItem_def unusedItem_def asc_eq_Nil)

lemma markup_renderHtml:
  assumes "length (missing r) = length (missing r')"
    and "length (risky r) = length (risky r')"
    and "length (unused r) = length (unused r')"
  shows "filter isMarkupUnit (renderHtml r used) = filter isMarkupUnit (renderHtml r' used')"
  unfolding renderHtml_def Let_def
  by (simp add: escapeHtml_markup numToString_markup assms
      markup_items [of "missingItem _", OF markup_missingItem items_nonempty(1)]
      markup_items [of riskyItem, OF markup_riskyItem items_nonempty(2)]
      markup_items [of unusedItem, OF markup_unusedItem items_nonempty(3)])

lemma prefix_append_cases:
  "prefix p (l @ rest) \<Longrightarrow> prefix p l \<or> strict_prefix l p"
  by (auto simp: prefix_append strict_prefix_def)

lemma countOcc_append:
  "\<not> straddles p l \<Longrightarrow> countOcc p (l @ rest) = countOcc p l + countOcc p rest"
proof (induction l)
  case Nil
  show ?case by simp
next
  case (Cons c cs)
  from Cons.prems have s: "\<not> strict_prefix (c # cs) p" and t: "\<not> straddles p cs"
    by simp_all
  have "prefix p ((c # cs) @ rest) \<longleftrightarrow> prefix p (c # cs)"
    using prefix_append_cases [of p "c # cs" rest] s prefix_prefix [of p "c # cs" rest] by blast
  with Cons.IH [OF t] show ?case by simp
qed

lemma prefix_asc: "prefix (asc p) (asc l) \<longleftrightarrow> prefix p l"
proof (induction p arbitrary: l)
  case Nil
  show ?case by (simp add: asc_def)
next
  case (Cons a p)
  show ?case
    by (cases l) (simp_all add: asc_Nil asc_Cons Cons.IH of_char_word16_inj)
qed

lemma asc_eq: "asc p = asc l \<longleftrightarrow> p = l"
  unfolding asc_def by (rule inj_map_eq_map) (simp add: inj_on_def of_char_word16_inj)

lemma strict_prefix_asc: "strict_prefix (asc p) (asc l) \<longleftrightarrow> strict_prefix p l"
  by (simp add: strict_prefix_def prefix_asc asc_eq)

lemma countOcc_asc: "countOcc (asc p) (asc l) = countOcc p l"
proof (induction l)
  case Nil
  show ?case by (simp add: asc_Nil)
next
  case (Cons c cs)
  have "prefix (asc p) (of_char c # asc cs) \<longleftrightarrow> prefix p (c # cs)"
    using prefix_asc [of p "c # cs"] by (simp add: asc_Cons)
  with Cons.IH show ?case by (simp add: asc_Cons)
qed

lemma straddles_asc: "straddles (asc p) (asc l) = straddles p l"
proof (induction l)
  case Nil
  show ?case by (simp add: asc_Nil)
next
  case (Cons c cs)
  have "strict_prefix (of_char c # asc cs) (asc p) \<longleftrightarrow> strict_prefix (c # cs) p"
    using strict_prefix_asc [of "c # cs" p] by (simp add: asc_Cons)
  with Cons.IH show ?case by (simp add: asc_Cons)
qed

lemma countOcc_literal:
  "\<not> straddles p l \<Longrightarrow> countOcc (asc p) (asc l @ rest) = countOcc p l + countOcc (asc p) rest"
  using countOcc_append [of "asc p" "asc l" rest] by (simp add: straddles_asc countOcc_asc)

lemma countOcc_noHead:
  "a \<notin> set d \<Longrightarrow> countOcc (a # q) (d @ rest) = countOcc (a # q) rest"
  by (induction d) auto

lemma lt_escapeHtml: "0x3C \<notin> set (escapeHtml s)"
  using escapeHtml_markup [of s] by (auto simp: filter_empty_conv isMarkupUnit_def)

lemma asc_lt: "asc (CHR ''<'' # q) = 0x3C # asc q"
  by (simp add: asc_def)

lemma countOcc_escapeHtml:
  "countOcc (asc (CHR ''<'' # q)) (escapeHtml s @ rest) = countOcc (asc (CHR ''<'' # q)) rest"
  unfolding asc_lt by (rule countOcc_noHead) (rule lt_escapeHtml)

lemma countOcc_number:
  "countOcc (asc (CHR ''<'' # q)) (numToString n @ rest) = countOcc (asc (CHR ''<'' # q)) rest"
  unfolding asc_lt by (rule countOcc_noHead) (rule numToString_lt)

lemma prefix_unit:
  "prefix (asc (CHR ''<'' # q)) (x # rest) = (x = 0x3C \<and> prefix (asc q) rest)"
  unfolding asc_lt by auto

lemma countOcc_items:
  assumes "\<And>x rest. countOcc p (f x @ rest) = countOcc p rest"
    and "countOcc p (d @ rest) = countOcc p rest"
  shows "countOcc p (orElse (concat (map f xs)) d @ rest) = countOcc p rest"
proof -
  have "countOcc p (concat (map f xs) @ rest) = countOcc p rest"
    by (induction xs) (simp_all add: assms(1))
  with assms(2) show ?thesis by (simp add: orElse_def)
qed

lemmas countOcc_rules =
  countOcc_literal countOcc_asc countOcc_escapeHtml countOcc_number prefix_unit

lemma countOcc_occTails: "countOcc p s = length (occTails p s)"
  by (induction s) auto

lemma occTails_append:
  "\<not> straddles p l \<Longrightarrow> occTails p (l @ rest) = map (\<lambda>t. t @ rest) (occTails p l) @ occTails p rest"
proof (induction l)
  case Nil
  show ?case by simp
next
  case (Cons c cs)
  from Cons.prems have s: "\<not> strict_prefix (c # cs) p" and t: "\<not> straddles p cs"
    by simp_all
  have e: "prefix p ((c # cs) @ rest) \<longleftrightarrow> prefix p (c # cs)"
    using prefix_append_cases [of p "c # cs" rest] s prefix_prefix [of p "c # cs" rest] by blast
  have d: "drop (length p) ((c # cs) @ rest) = drop (length p) (c # cs) @ rest" if "prefix p (c # cs)"
  proof -
    from that obtain zs where z: "c # cs = p @ zs" by (auto simp: prefix_def)
    show ?thesis unfolding z by simp
  qed
  show ?case
    using Cons.IH [OF t] e d by (cases "prefix p (c # cs)") simp_all
qed

lemma drop_asc: "drop n (asc l) = asc (drop n l)"
  by (simp add: asc_def drop_map)

lemma occTails_asc: "occTails (asc p) (asc l) = map asc (occTails p l)"
proof (induction l)
  case Nil
  show ?case by (simp add: asc_Nil)
next
  case (Cons c cs)
  have "prefix (asc p) (of_char c # asc cs) \<longleftrightarrow> prefix p (c # cs)"
    using prefix_asc [of p "c # cs"] by (simp add: asc_Cons)
  moreover have "drop (length (asc p)) (of_char c # asc cs) = asc (drop (length p) (c # cs))"
    using drop_asc [of "length p" "c # cs"] by (simp add: asc_Cons asc_def)
  ultimately show ?case
    using Cons.IH by (simp add: asc_Cons)
qed

lemma occTails_literal:
  "\<not> straddles p l \<Longrightarrow>
   occTails (asc p) (asc l @ rest) = map (\<lambda>t. asc t @ rest) (occTails p l) @ occTails (asc p) rest"
  using occTails_append [of "asc p" "asc l" rest]
  by (simp add: straddles_asc occTails_asc comp_def)

lemma occTails_noHead:
  "a \<notin> set d \<Longrightarrow> occTails (a # q) (d @ rest) = occTails (a # q) rest"
  by (induction d) auto

lemma occTails_escapeHtml:
  "occTails (asc (CHR ''<'' # q)) (escapeHtml s @ rest) = occTails (asc (CHR ''<'' # q)) rest"
  unfolding asc_lt by (rule occTails_noHead) (rule lt_escapeHtml)

lemma occTails_number:
  "occTails (asc (CHR ''<'' # q)) (numToString n @ rest) = occTails (asc (CHR ''<'' # q)) rest"
  unfolding asc_lt by (rule occTails_noHead) (rule numToString_lt)

lemma occTails_items:
  assumes "\<And>x rest. occTails p (f x @ rest) = occTails p rest"
    and "occTails p (d @ rest) = occTails p rest"
  shows "occTails p (orElse (concat (map f xs)) d @ rest) = occTails p rest"
proof -
  have "occTails p (concat (map f xs) @ rest) = occTails p rest"
    by (induction xs) (simp_all add: assms(1))
  with assms(2) show ?thesis by (simp add: orElse_def)
qed

lemma prefix_literal: "prefix p l \<Longrightarrow> prefix (asc p) (asc l @ rest)"
  by (simp add: prefix_asc prefix_prefix)

lemmas occTails_rules =
  occTails_literal occTails_asc occTails_escapeHtml occTails_number prefix_unit

lemma tile_item_tails:
  "occTails (asc tileOpen) (missingItem used k @ rest) = occTails (asc tileOpen) rest"
  "occTails (asc tileOpen) (riskyItem r @ rest) = occTails (asc tileOpen) rest"
  "occTails (asc tileOpen) (unusedItem k @ rest) = occTails (asc tileOpen) rest"
  "occTails (asc tileOpen) (noneItem @ rest) = occTails (asc tileOpen) rest"
  unfolding tileOpen_def missingItem_def riskyItem_def unusedItem_def noneItem_def
  by (simp_all add: occTails_rules)

lemmas tile_items_tails =
  occTails_items [OF tile_item_tails(1) tile_item_tails(4), unfolded tileOpen_def]
  occTails_items [OF tile_item_tails(2) tile_item_tails(4), unfolded tileOpen_def]
  occTails_items [OF tile_item_tails(3) tile_item_tails(4), unfolded tileOpen_def]

lemma tiles_contents:
  "list_all2 (\<lambda>t c. prefix c t) (occTails (asc tileOpen) (renderHtml report used))
     [asc ''Files: <b>'' @ numToString (filesScanned (totals report)) @ asc ''</b></div>'',
      asc ''Env vars: <b>'' @ numToString (envVarsFound (totals report)) @ asc ''</b></div>'',
      asc ''Missing: <b>'' @ numToString (missingCount (totals report)) @ asc ''</b></div>'',
      asc ''Risky: <b>'' @ numToString (riskyCount (totals report)) @ asc ''</b></div>'',
      asc ''Unused: <b>'' @ numToString (unusedCount (totals report)) @ asc ''</b></div>'']"
  unfolding renderHtml_def Let_def tileOpen_def
  by (simp add: occTails_rules tile_items_tails prefix_literal)

lemma tiles_renderHtml: "countOcc (asc tileOpen) (renderHtml report used) = 5"
  using list_all2_lengthD [OF tiles_contents [of report used]]
  by (simp add: countOcc_occTails)

lemma heading_item:
  "countOcc (asc headingOpen) (missingItem used k @ rest) = countOcc (asc headingOpen) rest"
  "countOcc (asc headingOpen) (riskyItem r @ rest) = countOcc (asc headingOpen) rest"
  "countOcc (asc headingOpen) (unusedItem k @ rest) = countOcc (asc headingOpen) rest"
  "countOcc (asc headingOpen) (noneItem @ rest) = countOcc (asc headingOpen) rest"
  unfolding headingOpen_def missingItem_def riskyItem_def unusedItem_def noneItem_def
  by (simp_all add: countOcc_rules)

lemmas heading_items =
  countOcc_items [OF heading_item(1) heading_item(4), unfolded headingOpen_def]
  countOcc_items [OF heading_item(2) heading_item(4), unfolded headingOpen_def]
  countOcc_items [OF heading_item(3) heading_item(4), unfolded headingOpen_def]

lemma headings_renderHtml: "countOcc (asc headingOpen) (renderHtml report used) = 3"
  unfolding renderHtml_def Let_def headingOpen_def
  by (simp add: countOcc_rules heading_items)

lemma headingMissing_item:
  "countOcc (asc headingMissing) (missingItem used k @ rest) = countOcc (asc headingMissing) rest"
  "countOcc (asc headingMissing) (riskyItem r @ rest) = countOcc (asc headingMissing) rest"
  "countOcc (asc headingMissing) (unusedItem k @ rest) = countOcc (asc headingMissing) rest"
  "countOcc (asc headingMissing) (noneItem @ rest) = countOcc (asc headingMissing) rest"
  unfolding headingMissing_def missingItem_def riskyItem_def unusedItem_def noneItem_def
  by (simp_all add: countOcc_rules)

lemmas headingMissing_items =
  countOcc_items [OF headingMissing_item(1) headingMissing_item(4), unfolded headingMissing_def]
  countOcc_items [OF headingMissing_item(2) headingMissing_item(4), unfolded headingMissing_def]
  countOcc_items [OF headingMissing_item(3) headingMissing_item(4), unfolded headingMissing_def]

lemma headingMissing_renderHtml: "countOcc (asc headingMissing) (renderHtml report used) = 1"
  unfolding renderHtml_def Let_def headingMissing_def
  by (simp add: countOcc_rules headingMissing_items)

lemma headingRisky_item:
  "countOcc (asc headingRisky) (missingItem used k @ rest) = countOcc (asc headingRisky) rest"
  "countOcc (asc headingRisky) (riskyItem r @ rest) = countOcc (asc headingRisky) rest"
  "countOcc (asc headingRisky) (unusedItem k @ rest) = countOcc (asc headingRisky) rest"
  "countOcc (asc headingRisky) (noneItem @ rest) = countOcc (asc headingRisky) rest"
  unfolding headingRisky_def missingItem_def riskyItem_def unusedItem_def noneItem_def
  by (simp_all add: countOcc_rules)

lemmas headingRisky_items =
  countOcc_items [OF headingRisky_item(1) headingRisky_item(4), unfolded headingRisky_def]
  countOcc_items [OF headingRisky_item(2) headingRisky_item(4), unfolded headingRisky_def]
  countOcc_items [OF headingRisky_item(3) headingRisky_item(4), unfolded headingRisky_def]

lemma headingRisky_renderHtml: "countOcc (asc headingRisky) (renderHtml report used) = 1"
  unfolding renderHtml_def Let_def headingRisky_def
  by (simp add: countOcc_rules headingRisky_items)

lemma headingUnused_item:
  "countOcc (asc headingUnused) (missingItem used k @ rest) = countOcc (asc headingUnused) rest"
  "countOcc (asc headingUnused) (riskyItem r @ rest) = countOcc (asc headingUnused) rest"
  "countOcc (asc headingUnused) (unusedItem k @ rest) = countOcc (asc headingUnused) rest"
  "countOcc (asc headingUnused) (noneItem @ rest) = countOcc (asc headingUnused) rest"
  unfolding headingUnused_def missingItem_def riskyItem_def unusedItem_def noneItem_def
  by (simp_all add: countOcc_rules)

lemmas headingUnused_items =
  countOcc_items [OF headingUnused_item(1) headingUnused_item(4), unfolded headingUnused_def]
  countOcc_items [OF headingUnused_item(2) headingUnused_item(4), unfolded headingUnused_def]
  countOcc_items [OF headingUnused_item(3) headingUnused_item(4), unfolded headingUnused_def]

lemma headingUnused_renderHtml: "countOcc (asc headingUnused) (renderHtml report used) = 1"
  unfolding renderHtml_def Let_def headingUnused_def
  by (simp add: countOcc_rules headingUnused_items)

text \<open>The run over a project without source files, with no env list.\<close>

lemma emptyProject_run:
  "main \<lparr>displayTarget = target, files = [], envFile = NoEnvFile\<rparr> =
     Inr \<lparr>reportJson = emptyProjectReport target,
          envExample = [newline],
          reportHtml = renderHtml (emptyProjectReport target) []\<rparr>"
  by (simp add: main_def scanFiles_def usedKeysOf_def no_env_lists exampleLines_def
      emptyProjectReport_def Let_def)

text \<open>
  Claim C8, as amended. Every markup report holds exactly five metric tiles and
  exactly three section headings. Whatever the report's values, the opening tag of a
  tile occurs five times, and what follows its occurrences is, in this order, the
  caption \<^verbatim>\<open>Files\<close> with the number of files scanned, \<^verbatim>\<open>Env vars\<close> with the
  number of variables found, \<^verbatim>\<open>Missing\<close> with the number of missing keys,
  \<^verbatim>\<open>Risky\<close> with the number of findings and \<^verbatim>\<open>Unused\<close> with the number of
  unused keys. The opening tag of a heading occurs three times, and the headings of
  the missing variables, the risky usages and the unused variables once each.
\<close>

theorem report_tiles_and_sections:
  "countOcc (asc tileOpen) (renderHtml report used) = 5 \<and>
   list_all2 (\<lambda>t c. prefix c t) (occTails (asc tileOpen) (renderHtml report used))
     [asc ''Files: <b>'' @ numToString (filesScanned (totals report)) @ asc ''</b></div>'',
      asc ''Env vars: <b>'' @ numToString (envVarsFound (totals report)) @ asc ''</b></div>'',
      asc ''Missing: <b>'' @ numToString (missingCount (totals report)) @ asc ''</b></div>'',
      asc ''Risky: <b>'' @ numToString (riskyCount (totals report)) @ asc ''</b></div>'',
      asc ''Unused: <b>'' @ numToString (unusedCount (totals report)) @ asc ''</b></div>''] \<and>
   countOcc (asc headingOpen) (renderHtml report used) = 3 \<and>
   countOcc (asc headingMissing) (renderHtml report used) = 1 \<and>
   countOcc (asc headingRisky) (renderHtml report used) = 1 \<and>
   countOcc (asc headingUnused) (renderHtml report used) = 1"
  using tiles_contents [of report used]
  by (simp only: tiles_renderHtml headings_renderHtml headingMissing_renderHtml
      headingRisky_renderHtml headingUnused_renderHtml simp_thms)

text \<open>
  Claim C8 as the specification states it fails on the report of a project without
  source files (\<open>emptyProject_run\<close>): its tiles are not four.
\<close>

theorem four_tiles_counterexample:
  "countOcc (asc tileOpen) (renderHtml (emptyProjectReport (asc ''/srv/shop'')) []) \<noteq> 4"
  by (simp add: tiles_renderHtml)

lemma escapeHtml_amps: "ampsBeginEntities (escapeHtml s)"
  using amps_escapeHtml [of s "[]"] by simp

text \<open>
  Claim C9. \<open>escapeHtml\<close> replaces each of the five characters, wherever it occurs,
  by its entity and keeps every other code unit; its output holds no \<^verbatim>\<open><\<close>,
  \<^verbatim>\<open>>\<close>, \<^verbatim>\<open>"\<close> or \<^verbatim>\<open>'\<close>, and every \<^verbatim>\<open>&\<close> of it begins one of the five
  entities. Every textual value of the markup report goes through it: the
  \<^verbatim>\<open><\<close>, \<^verbatim>\<open>>\<close>, \<^verbatim>\<open>"\<close> and \<^verbatim>\<open>'\<close> of a report are the same for any two reports
  that list as many missing keys, findings and unused keys, whatever their keys,
  types, files, lines, rationales and scanned input are, and every \<^verbatim>\<open>&\<close> of a
  report begins an entity.
\<close>

theorem markup_is_escaped:
  "escapeHtml s = concat (map escapeUnit s) \<and>
   filter isMarkupUnit (escapeHtml s) = [] \<and>
   ampsBeginEntities (escapeHtml s) \<and>
   (length (missing r) = length (missing r') \<and> length (risky r) = length (risky r') \<and>
    length (unused r) = length (unused r') \<longrightarrow>
      filter isMarkupUnit (renderHtml r used) = filter isMarkupUnit (renderHtml r' used')) \<and>
   ampsBeginEntities (renderHtml r used)"
  using escapeHtml_concat [of s] escapeHtml_markup [of s] escapeHtml_amps [of s]
    markup_renderHtml [of r r' used used'] amps_renderHtml [of r used]
  by blast

lemma sample_escaped:
  \<open>escapeHtml sampleText = asc ''&lt;a href=&quot;x&quot;&gt;Tom &amp; Jerry&#039;s&lt;/a&gt;''\<close>
  by code_simp

text \<open>
  A string with all five characters, as the scanned input of a report without
  findings, beside the same report for an empty scanned input.
\<close>

theorem markup_is_escaped_witness:
  \<open>escapeHtml sampleText = asc ''&lt;a href=&quot;x&quot;&gt;Tom &amp; Jerry&#039;s&lt;/a&gt;'' \<and>
   filter isMarkupUnit (asc ''&lt;a href=&quot;x&quot;&gt;Tom &amp; Jerry&#039;s&lt;/a&gt;'') = [] \<and>
   ampsBeginEntities (asc ''&lt;a href=&quot;x&quot;&gt;Tom &amp; Jerry&#039;s&lt;/a&gt;'') \<and>
   length (missing (emptyProjectReport sampleText)) = length (missing (emptyProjectReport [])) \<and>
   length (risky (emptyProjectReport sampleText)) = length (risky (emptyProjectReport [])) \<and>
   length (unused (emptyProjectReport sampleText)) = length (unused (emptyProjectReport [])) \<and>
   filter isMarkupUnit (renderHtml (emptyProjectReport sampleText) []) =
     filter isMarkupUnit (renderHtml (emptyProjectReport []) []) \<and>
   ampsBeginEntities (renderHtml (emptyProjectReport sampleText) [])\<close>
proof -
  let ?r = "emptyProjectReport sampleText" and ?r' = "emptyProjectReport []"
  note t = markup_is_escaped [of sampleText ?r ?r' "[]" "[]"]
  have l: "length (missing ?r) = length (missing ?r')" "length (risky ?r) = length (risky ?r')"
    "length (unused ?r) = length (unused ?r')"
    by (simp_all add: emptyProjectReport_def)
  from t have "filter isMarkupUnit (escapeHtml sampleText) = []"
    and "ampsBeginEntities (escapeHtml sampleText)"
    by blast+
  then have e: \<open>filter isMarkupUnit (asc ''&lt;a href=&quot;x&quot;&gt;Tom &amp; Jerry&#039;s&lt;/a&gt;'') = []\<close>
      \<open>ampsBeginEntities (asc ''&lt;a href=&quot;x&quot;&gt;Tom &amp; Jerry&#039;s&lt;/a&gt;'')\<close>
    by (simp_all only: sample_escaped)
  from t l have m: "filter isMarkupUnit (renderHtml ?r []) = filter isMarkupUnit (renderHtml ?r' [])"
    by blast
  from t have a: "ampsBeginEntities (renderHtml ?r [])"
    by blast
  show ?thesis
    by (intro conjI sample_escaped e l m a)
qed

end
